theory Spec2Isabelle
  imports Complex_Main "HOL-Library.Sublist"
begin

section \<open>Data model of \<open>kmk/modules/combos.py\<close>\<close>

text \<open>
  Keys are opaque symbols of the host (\<open>kmk.keys.Key\<close>); they are modelled by natural
  numbers. A coordinate is Python's \<open>Optional[int]\<close>. The tuple \<open>match\<close> of a combo
  holds keys or integers (\<open>Tuple[Union[Key, int], ...]\<close>); a key never compares equal to
  an integer or to \<open>None\<close>, so the elements the code compares with \<open>==\<close> and \<open>in\<close>
  are values of the tagged type \<open>ref\<close>.
\<close>

type_synonym key = nat
type_synonym coord = "int option"

datatype ref = RKey key | RCoord int | RNone

fun coord_ref :: "coord \<Rightarrow> ref" where
  "coord_ref None = RNone"
| "coord_ref (Some c) = RCoord c"

text \<open>\<open>class _ComboState\<close>\<close>

datatype combo_state = RESET | MATCHING | ACTIVE | IDLE

text \<open>The two concrete subclasses of \<open>Combo\<close>.\<close>

datatype combo_kind = Chord | Sequence

text \<open>The exceptions the module can raise.\<close>

datatype error = AttributeError | ValueError

text \<open>
  \<open>class Combo\<close>. The field \<open>remaining\<close> is \<open>_remaining\<close> (class attribute \<open>[]\<close>
  until \<open>reset\<close> gives the instance its own list), \<open>cstate\<close> is \<open>_state\<close>.
  \<open>__init__\<close> never assigns \<open>self.pressed\<close> (its parameter \<open>pressed\<close> is unused), so
  the attribute is absent until \<open>reset\<close> runs: \<open>pressed = None\<close> stands for the absent
  attribute, whose read raises \<open>AttributeError\<close>.
\<close>

record combo =
  kind :: combo_kind
  match :: "ref list"
  result :: key
  fast_reset :: bool
  per_key_timeout :: bool
  timeout :: int
  match_coord :: bool
  remaining :: "ref list"
  pressed :: "ref list option"
  cstate :: combo_state

text \<open>
  \<open>Combo.__init__\<close> for the two subclasses, with the class defaults
  (\<open>Combo\<close>: \<open>fast_reset = False\<close>, \<open>per_key_timeout = False\<close>, \<open>timeout = 50\<close>;
  \<open>Sequence\<close>: \<open>True\<close>, \<open>True\<close>, \<open>1000\<close>) taken where the argument is \<open>None\<close>.
\<close>

definition default_of :: "'a option \<Rightarrow> 'a \<Rightarrow> 'a" where
  "default_of arg cls = (case arg of None \<Rightarrow> cls | Some v \<Rightarrow> v)"

definition Combo_init ::
  "combo_kind \<Rightarrow> ref list \<Rightarrow> key \<Rightarrow> bool option \<Rightarrow> bool option \<Rightarrow> int option \<Rightarrow> bool option \<Rightarrow> combo"
where
  "Combo_init k m r fr pkt t mc =
     \<lparr> kind = k, match = m, result = r,
       fast_reset = default_of fr (k = Sequence),
       per_key_timeout = default_of pkt (k = Sequence),
       timeout = default_of t (if k = Sequence then 1000 else 50),
       match_coord = default_of mc False,
       remaining = [], pressed = None, cstate = RESET \<rparr>"

text \<open>
  The setter of the property \<open>Combo.state\<close>. It updates the class attribute
  \<open>Combos.match_count\<close>, which is passed in and returned next to the combo.
\<close>

definition set_state :: "combo_state \<Rightarrow> combo \<times> int \<Rightarrow> combo \<times> int" where
  "set_state new_state p =
     (case p of (c, match_count) \<Rightarrow>
        if cstate c = new_state then (c, match_count)
        else
          let mc1 = (if new_state = MATCHING then match_count + 1 else match_count);
              mc2 = (if cstate c = MATCHING then mc1 - 1 else mc1)
          in (c\<lparr>cstate := new_state\<rparr>, mc2))"

text \<open>\<open>Combo.has_match\<close>: \<open>self._match_coord and int_coord in self.match or key in self.match\<close>.\<close>

definition has_match :: "combo \<Rightarrow> key \<Rightarrow> coord \<Rightarrow> bool" where
  "has_match c k ic =
     (match_coord c \<and> coord_ref ic \<in> set (match c) \<or> RKey k \<in> set (match c))"

text \<open>\<open>Combo.uses_match\<close> and its override \<open>Sequence.uses_match\<close>, which reads \<open>self.pressed\<close>.\<close>

definition uses_match :: "combo \<Rightarrow> key \<Rightarrow> coord \<Rightarrow> error + bool" where
  "uses_match c k ic =
     (case kind c of
        Chord \<Rightarrow> Inr (has_match c k ic)
      | Sequence \<Rightarrow>
          if has_match c k ic then
            (if match_coord c then
               (case pressed c of
                  None \<Rightarrow> Inl AttributeError
                | Some p \<Rightarrow> Inr (coord_ref ic \<in> set p))
             else
               (case pressed c of
                  None \<Rightarrow> Inl AttributeError
                | Some p \<Rightarrow> Inr (RKey k \<in> set p)))
          else Inr False)"

text \<open>\<open>Combo.unpress\<close>: \<open>list.remove\<close> raises \<open>ValueError\<close> when the element is absent.\<close>

definition list_remove :: "ref \<Rightarrow> ref list \<Rightarrow> error + ref list" where
  "list_remove x xs = (if x \<in> set xs then Inr (remove1 x xs) else Inl ValueError)"

definition unpress :: "combo \<Rightarrow> key \<Rightarrow> coord \<Rightarrow> error + combo" where
  "unpress c k ic =
     (case pressed c of
        None \<Rightarrow> Inl AttributeError
      | Some p \<Rightarrow>
          (case list_remove (if match_coord c then coord_ref ic else RKey k) p of
             Inl e \<Rightarrow> Inl e
           | Inr p' \<Rightarrow> Inr (c\<lparr>pressed := Some p'\<rparr>)))"

text \<open>\<open>Combo.reset\<close>\<close>

definition reset :: "combo \<times> int \<Rightarrow> combo \<times> int" where
  "reset p =
     (case p of (c, match_count) \<Rightarrow>
        set_state MATCHING (c\<lparr>remaining := match c, pressed := Some []\<rparr>, match_count))"

text \<open>
  \<open>Chord.matches\<close> and \<open>Sequence.matches\<close>: the answer and the updated combo. In
  \<open>self.pressed.append(self._remaining.pop(0))\<close> the attribute \<open>pressed\<close> is looked up
  before the argument is evaluated.
\<close>

definition matches :: "combo \<Rightarrow> key \<Rightarrow> coord \<Rightarrow> error + (bool \<times> combo)" where
  "matches c k ic =
     (case kind c of
        Chord \<Rightarrow>
          if \<not> match_coord c \<and> RKey k \<in> set (remaining c)
          then Inr (True, c\<lparr>remaining := remove1 (RKey k) (remaining c)\<rparr>)
          else if match_coord c \<and> coord_ref ic \<in> set (remaining c)
          then Inr (True, c\<lparr>remaining := remove1 (coord_ref ic) (remaining c)\<rparr>)
          else Inr (False, c)
      | Sequence \<Rightarrow>
          (case remaining c of
             [] \<Rightarrow> Inr (False, c)
           | r # rs \<Rightarrow>
               if (\<not> match_coord c \<and> r = RKey k) \<or> (match_coord c \<and> r = coord_ref ic)
               then
                 (case pressed c of
                    None \<Rightarrow> Inl AttributeError
                  | Some p \<Rightarrow> Inr (True, c\<lparr>pressed := Some (p @ [r]), remaining := rs\<rparr>))
               else Inr (False, c)))"


section \<open>The engine, the class attributes and the host keyboard\<close>

text \<open>
  A buffered event is the tuple \<open>(int_coord, key, is_pressed, timepoint)\<close> of the source.
\<close>

type_synonym event = "coord \<times> key \<times> bool \<times> int"

text \<open>
  Modelled from the spec: the host keyboard (\<open>kmk.kmk_keyboard.KMKKeyboard\<close>), which is
  not among the sources. The module reaches it through three operations only:
  \<open>resume_process_key(source, key, is_pressed, coord?)\<close> forwards an event downstream,
  \<open>set_timeout(ms, callback)\<close> arms a one-shot timer and returns its handle,
  \<open>cancel_timeout(handle)\<close> disarms it. The host is the log of the calls it received, each
  \<open>Resume\<close> stamped with the clock reading at the call, and a supply of fresh handles.
  Handles are objects, so \<open>if self._timeout:\<close> holds exactly when a handle is stored.
  \<open>Fire h\<close> records that timer \<open>h\<close> expired and the host ran its callback.
\<close>

datatype host_call =
    Resume int key bool coord
  | SetTimeout nat int
  | CancelTimeout nat
  | Fire nat

text \<open>
  One record holds what an instance of \<open>Combos\<close> sees: the two class attributes
  \<open>Combos.match_count\<close> and \<open>Combos.start_timepoint\<close> (shared by all instances), the
  instance attributes, and the host. \<open>timeout_handle\<close> is \<open>self._timeout\<close>. The instance
  attribute \<open>start_timepoint\<close> does not exist until the first assignment
  \<open>self.start_timepoint = ...\<close>: \<open>None\<close> is the absent attribute, \<open>Some v\<close> the attribute
  holding \<open>v\<close> (itself \<open>None\<close> or a time). \<open>pending_combos\<close> holds references to
  registered combos: positions in \<open>combos\<close>, whose entries are distinct objects.
\<close>

record state =
  Combos_match_count :: int
  Combos_start_timepoint :: "int option"
  combos :: "combo list"
  key_buffer :: "event list"
  pending_combos :: "nat list"
  timeout_handle :: "nat option"
  start_timepoint :: "int option option"
  calls :: "host_call list"
  next_handle :: nat

text \<open>Reading \<open>self.start_timepoint\<close>: the instance attribute, else the class attribute.\<close>

definition get_start_timepoint :: "state \<Rightarrow> int option" where
  "get_start_timepoint s =
     (case start_timepoint s of None \<Rightarrow> Combos_start_timepoint s | Some v \<Rightarrow> v)"

text \<open>
  Modelled from the spec: \<open>keyboard.resume_process_key\<close>, which forwards the event
  downstream and does not re-enter the engine.
\<close>

definition resume_process_key :: "int \<Rightarrow> key \<Rightarrow> bool \<Rightarrow> coord \<Rightarrow> state \<Rightarrow> state" where
  "resume_process_key now k is_pressed ic s = s\<lparr>calls := calls s @ [Resume now k is_pressed ic]\<rparr>"

text \<open>
  The first statement of \<open>on_press\<close> and \<open>on_release\<close>:
  \<open>if self._timeout: keyboard.cancel_timeout(self._timeout)\<close>.
\<close>

definition cancel_stored_timeout :: "state \<Rightarrow> state" where
  "cancel_stored_timeout s =
     (case timeout_handle s of
        None \<Rightarrow> s
      | Some h \<Rightarrow> s\<lparr>calls := calls s @ [CancelTimeout h]\<rparr>)"

text \<open>
  The statement
  \<open>self._timeout = keyboard.set_timeout(longest_timeout, lambda: self.on_timeout(keyboard))\<close>,
  with \<open>keyboard.set_timeout\<close> modelled from the spec: it arms a timer and returns a fresh
  handle.
\<close>

definition set_timeout :: "int \<Rightarrow> state \<Rightarrow> state" where
  "set_timeout ms s =
     s\<lparr>calls := calls s @ [SetTimeout (next_handle s) ms],
       timeout_handle := Some (next_handle s),
       next_handle := Suc (next_handle s)\<rparr>"

text \<open>\<open>Combos.activate\<close> and \<open>Combos.deactivate\<close> call the host without a coordinate.\<close>

definition activate :: "int \<Rightarrow> combo \<Rightarrow> host_call list \<Rightarrow> host_call list" where
  "activate now c cl = cl @ [Resume now (result c) True None]"

definition deactivate :: "int \<Rightarrow> combo \<Rightarrow> host_call list \<Rightarrow> host_call list" where
  "deactivate now c cl = cl @ [Resume now (result c) False None]"

text \<open>
  \<open>Combos.__init__\<close>, run in a world \<open>w\<close> of which only the host matters: both class
  attributes are assigned, the instance attributes are created. (\<open>make_key\<close> registers the
  names \<open>LEADER\<close>, \<open>LDR\<close> with the host's key table and has no effect on the engine.)
\<close>

definition Combos_init :: "combo list \<Rightarrow> state \<Rightarrow> state" where
  "Combos_init cs w =
     \<lparr> Combos_match_count = 0, Combos_start_timepoint = None,
       combos = cs, key_buffer = [], pending_combos = [],
       timeout_handle = None, start_timepoint = None,
       calls = calls w, next_handle = next_handle w \<rparr>"

text \<open>The world when the module is loaded: the class body has run, the host is untouched.\<close>

definition module_loaded :: state where
  "module_loaded =
     \<lparr> Combos_match_count = 0, Combos_start_timepoint = None,
       combos = [], key_buffer = [], pending_combos = [],
       timeout_handle = None, start_timepoint = None,
       calls = [], next_handle = 1 \<rparr>"

text \<open>\<open>Combos.reset_combos\<close>\<close>

fun reset_all :: "combo list \<Rightarrow> int \<Rightarrow> combo list \<times> int" where
  "reset_all [] match_count = ([], match_count)"
| "reset_all (c # cs) match_count =
     (case (if cstate c \<noteq> ACTIVE then reset (c, match_count) else (c, match_count)) of
        (c', mc') \<Rightarrow> (case reset_all cs mc' of (cs', mc'') \<Rightarrow> (c' # cs', mc'')))"

definition reset_combos :: "state \<Rightarrow> state" where
  "reset_combos s =
     (case reset_all (combos s) (Combos_match_count s) of
        (cs, mc) \<Rightarrow> s\<lparr>combos := cs, Combos_match_count := mc\<rparr>)"

text \<open>\<open>Combos.during_bootup\<close>\<close>

definition during_bootup :: "state \<Rightarrow> state" where
  "during_bootup s = reset_combos s"


section \<open>Press handling up to the end of the loop over the registry\<close>

text \<open>
  The body of \<open>for combo in self.combos\<close> in \<open>on_press\<close> for the combo at position \<open>i\<close>.
  \<open>d_last\<close> and \<open>d_start\<close> are the quotients \<open>(current_timepoint - ...) / 1000\<close> of the
  source (Python's true division, taken exactly here). The local variables are the triple
  \<open>(self._pending_combos, matching_unfinished, longest_timeout)\<close>.
\<close>

type_synonym press_vars = "nat list \<times> nat \<times> int"

definition press_combo ::
  "key \<Rightarrow> coord \<Rightarrow> rat \<Rightarrow> rat \<Rightarrow> nat \<Rightarrow> combo \<times> int \<Rightarrow> press_vars
   \<Rightarrow> error + ((combo \<times> int) \<times> press_vars)"
where
  "press_combo k ic d_last d_start i p vars =
     (case p of (c, match_count) \<Rightarrow>
      case vars of (pending, matching_unfinished, longest_timeout) \<Rightarrow>
        if cstate c \<noteq> MATCHING then Inr ((c, match_count), vars)
        else
          (case matches c k ic of
             Inl e \<Rightarrow> Inl e
           | Inr (m, c1) \<Rightarrow>
               if m \<and> ((per_key_timeout c1 \<and> d_last < of_int (timeout c1))
                      \<or> (\<not> per_key_timeout c1 \<and> d_start < of_int (timeout c1)))
               then
                 (if length (remaining c1) = 0
                  then Inr ((c1, match_count),
                            (pending @ [i], matching_unfinished, max longest_timeout (timeout c1)))
                  else Inr ((c1, match_count),
                            (pending, matching_unfinished + 1, max longest_timeout (timeout c1))))
               else Inr (set_state RESET (reset (c1, match_count)), vars)))"

text \<open>
  The loop itself. When an iteration raises, the combos already visited keep their
  updates and the rest are untouched.
\<close>

fun press_loop ::
  "key \<Rightarrow> coord \<Rightarrow> rat \<Rightarrow> rat \<Rightarrow> nat \<Rightarrow> combo list \<Rightarrow> int \<Rightarrow> press_vars
   \<Rightarrow> error option \<times> combo list \<times> int \<times> press_vars"
where
  "press_loop k ic d_last d_start i [] match_count vars = (None, [], match_count, vars)"
| "press_loop k ic d_last d_start i (c # cs) match_count vars =
     (case press_combo k ic d_last d_start i (c, match_count) vars of
        Inl e \<Rightarrow> (Some e, c # cs, match_count, vars)
      | Inr ((c', mc'), vars') \<Rightarrow>
          (case press_loop k ic d_last d_start (Suc i) cs mc' vars' of
             (e, cs', mc'', vars'') \<Rightarrow> (e, c' # cs', mc'', vars'')))"

text \<open>
  Lines 177 to 206 of \<open>on_press\<close>: cancel the stored timer, read the clock (\<open>now\<close> is
  what \<open>ticks_ms()\<close> returns during this entry), fix \<open>start_timepoint\<close>, compute the two
  deltas, clear \<open>_pending_combos\<close> and run the loop. The result is the exception raised
  (if any), the state, \<open>matching_unfinished\<close> and \<open>longest_timeout\<close>.
\<close>

definition on_press_scan ::
  "int \<Rightarrow> key \<Rightarrow> coord \<Rightarrow> state \<Rightarrow> error option \<times> state \<times> nat \<times> int"
where
  "on_press_scan now k ic s0 =
     (let s1 = cancel_stored_timeout s0;
          current_timepoint = now;
          s2 = (if get_start_timepoint s1 = None
                then s1\<lparr>start_timepoint := Some (Some current_timepoint)\<rparr> else s1);
          start = (case get_start_timepoint s2 of None \<Rightarrow> current_timepoint | Some t \<Rightarrow> t);
          last_timepoint =
            (if key_buffer s2 \<noteq> [] then snd (snd (snd (last (key_buffer s2)))) else start);
          d_last = of_int (current_timepoint - last_timepoint) / 1000;
          d_start = of_int (current_timepoint - start) / 1000
      in case press_loop k ic d_last d_start 0 (combos s2) (Combos_match_count s2) ([], 0, 0) of
           (e, cs, mc, (pending, matching_unfinished, longest_timeout)) \<Rightarrow>
             (e, s2\<lparr>combos := cs, Combos_match_count := mc, pending_combos := pending\<rparr>,
              matching_unfinished, longest_timeout))"

section \<open>Release handling up to the balance of the buffer\<close>

text \<open>
  The body of \<open>for combo in self.combos\<close> in \<open>on_release\<close>. It changes the combo,
  \<open>Combos.match_count\<close>, the host (through \<open>deactivate\<close>) and the local variables
  \<open>(longest_timeout, propagate_release, buffer_release)\<close>. An exception leaves what was
  done before it in place.
\<close>

type_synonym release_vars = "int \<times> bool \<times> bool"

definition release_combo ::
  "int \<Rightarrow> key \<Rightarrow> coord \<Rightarrow> combo \<Rightarrow> int \<times> host_call list \<times> release_vars
   \<Rightarrow> error option \<times> combo \<times> int \<times> host_call list \<times> release_vars"
where
  "release_combo now k ic c acc =
     (case acc of (match_count, cl, (longest_timeout, propagate_release, buffer_release)) \<Rightarrow>
      (case uses_match c k ic of
        Inl e \<Rightarrow> (Some e, c, acc)
      | Inr False \<Rightarrow> (None, c, acc)
      | Inr True \<Rightarrow>
          (case (if cstate c = ACTIVE
                 then (case (if fast_reset c then reset (c, match_count)
                             else set_state MATCHING (c, match_count)) of
                         (c1, mc1) \<Rightarrow> (c1, mc1, deactivate now c cl, False))
                 else (c, match_count, cl, propagate_release)) of
             (c1, mc1, cl1, propagate1) \<Rightarrow>
               if cstate c1 = MATCHING then
                 (if fast_reset c1 then
                    (case unpress c1 k ic of
                       Inl e \<Rightarrow>
                         (Some e, c1, mc1, cl1, (max longest_timeout (timeout c1), False, True))
                     | Inr c2 \<Rightarrow>
                         (None, c2, mc1, cl1, (max longest_timeout (timeout c1), False, True)))
                  else
                    (case reset (c1, mc1) of
                       (c2, mc2) \<Rightarrow>
                         (None, c2, mc2, cl1, (longest_timeout, propagate1, buffer_release))))
               else (None, c1, mc1, cl1, (longest_timeout, propagate1, buffer_release)))))"

fun release_loop ::
  "int \<Rightarrow> key \<Rightarrow> coord \<Rightarrow> combo list \<Rightarrow> int \<times> host_call list \<times> release_vars
   \<Rightarrow> error option \<times> combo list \<times> int \<times> host_call list \<times> release_vars"
where
  "release_loop now k ic [] acc = (None, [], acc)"
| "release_loop now k ic (c # cs) acc =
     (case release_combo now k ic c acc of
        (Some e, c', acc') \<Rightarrow> (Some e, c' # cs, acc')
      | (None, c', acc') \<Rightarrow>
          (case release_loop now k ic cs acc' of
             (e, cs', acc'') \<Rightarrow> (e, c' # cs', acc'')))"

text \<open>
  \<open>press_vs_released\<close>: the sum of \<open>buffer_event[2]*2 - 1\<close> over the buffered events of
  this coordinate and key.
\<close>

definition press_vs_released :: "event list \<Rightarrow> coord \<Rightarrow> key \<Rightarrow> int" where
  "press_vs_released buf ic k =
     sum_list (map (\<lambda>ev. (if fst (snd (snd ev)) then 1 else 0) * 2 - 1)
                   (filter (\<lambda>ev. fst ev = ic \<and> fst (snd ev) = k) buf))"

text \<open>
  Lines 228 to 268 of \<open>on_release\<close>: cancel the stored timer, run the loop, append the
  release to the buffer when a press of it is buffered. The result is the exception raised
  (if any), the state, \<open>longest_timeout\<close> and \<open>propagate_release\<close>.
\<close>

definition on_release_scan ::
  "int \<Rightarrow> key \<Rightarrow> coord \<Rightarrow> state \<Rightarrow> error option \<times> state \<times> int \<times> bool"
where
  "on_release_scan now k ic s0 =
     (let s1 = cancel_stored_timeout s0;
          current_timepoint = now
      in case release_loop now k ic (combos s1)
                (Combos_match_count s1, calls s1, (0, True, False)) of
           (e, cs, mc, cl, (longest_timeout, propagate_release, buffer_release)) \<Rightarrow>
             (let s2 = s1\<lparr>combos := cs, Combos_match_count := mc, calls := cl\<rparr>
              in case e of
                   Some err \<Rightarrow> (e, s2, longest_timeout, propagate_release)
                 | None \<Rightarrow>
                     if press_vs_released (key_buffer s2) ic k > 0
                     then (None,
                           s2\<lparr>key_buffer := key_buffer s2 @ [(ic, k, False, current_timepoint)]\<rparr>,
                           longest_timeout, False)
                     else (None, s2, longest_timeout, propagate_release)))"


section \<open>Commit\<close>

text \<open>
  The dictionary \<open>buffer_pressed_vs_released\<close> of \<open>send_pending_combos\<close>, as an association
  list in insertion order: a new key enters with 0 and is then raised or lowered by one.
\<close>

type_synonym balance = "((coord \<times> key) \<times> int) list"

fun dict_bump :: "coord \<times> key \<Rightarrow> bool \<Rightarrow> balance \<Rightarrow> balance" where
  "dict_bump kk buffer_pressed [] = [(kk, if buffer_pressed then 0 + 1 else 0 - 1)]"
| "dict_bump kk buffer_pressed ((kk', n) # d) =
     (if kk' = kk then (kk', if buffer_pressed then n + 1 else n - 1) # d
      else (kk', n) # dict_bump kk buffer_pressed d)"

definition buffer_pressed_vs_released :: "event list \<Rightarrow> balance" where
  "buffer_pressed_vs_released buf =
     fold (\<lambda>ev. dict_bump (fst ev, fst (snd ev)) (fst (snd (snd ev)))) buf []"

text \<open>
  One iteration of \<open>for combo in self._pending_combos\<close>, for the pending combo at
  position \<open>i\<close> of the registry: activate, set ACTIVE, and deactivate at once when some
  buffered key of the combo has been released at least as often as pressed.
\<close>

definition send_pending_combo :: "int \<Rightarrow> balance \<Rightarrow> nat \<Rightarrow> state \<Rightarrow> state" where
  "send_pending_combo now bal i s =
     (let c = combos s ! i;
          cl1 = activate now c (calls s)
      in case set_state ACTIVE (c, Combos_match_count s) of
           (c1, mc1) \<Rightarrow>
             if list_ex (\<lambda>item. snd item \<le> 0 \<and> has_match c1 (snd (fst item)) (fst (fst item))) bal
             then (case set_state RESET (c1, mc1) of
                     (c2, mc2) \<Rightarrow>
                       s\<lparr>combos := (combos s)[i := c2], Combos_match_count := mc2,
                         calls := deactivate now c1 cl1\<rparr>)
             else s\<lparr>combos := (combos s)[i := c1], Combos_match_count := mc1, calls := cl1\<rparr>)"

text \<open>\<open>Combos.send_pending_combos\<close>\<close>

definition send_pending_combos :: "int \<Rightarrow> state \<Rightarrow> state" where
  "send_pending_combos now s =
     (let bal = buffer_pressed_vs_released (key_buffer s);
          s1 = fold (send_pending_combo now bal) (pending_combos s) s;
          s2 = s1\<lparr>pending_combos := [], key_buffer := []\<rparr>;
          s3 = reset_combos s2
      in s3\<lparr>start_timepoint := Some None\<rparr>)"

section \<open>The entry points\<close>

text \<open>
  A call either returns or raises, in both cases leaving a state behind. \<open>on_press\<close>,
  \<open>process_key\<close>, \<open>on_release\<close> and \<open>flush_buffers\<close> call one another, and the
  \<open>while\<close> loop of \<open>flush_buffers\<close> runs as long as the re-entered handlers refill the
  buffer. The functions therefore take fuel, spent by every call and every loop
  iteration: \<open>None\<close> means the fuel ran out before the call finished.
\<close>

datatype outcome = Return state | Raise error state

fun state_of :: "outcome \<Rightarrow> state" where
  "state_of (Return s) = s"
| "state_of (Raise e s) = s"

definition and_then :: "outcome option \<Rightarrow> (state \<Rightarrow> outcome option) \<Rightarrow> outcome option" where
  "and_then m f =
     (case m of
        None \<Rightarrow> None
      | Some (Raise e s) \<Rightarrow> Some (Raise e s)
      | Some (Return s) \<Rightarrow> f s)"

text \<open>
  \<open>flush_while\<close> is the \<open>while self._key_buffer\<close> loop of \<open>flush_buffers\<close> and
  \<open>replay\<close> its inner loop over \<open>old_buffer\<close>, for the press \<open>(int_coord, key)\<close> just
  forwarded.
\<close>

function (sequential) process_key :: "nat \<Rightarrow> int \<Rightarrow> key \<Rightarrow> bool \<Rightarrow> coord \<Rightarrow> state \<Rightarrow> outcome option"
and on_press :: "nat \<Rightarrow> int \<Rightarrow> key \<Rightarrow> coord \<Rightarrow> state \<Rightarrow> outcome option"
and on_release :: "nat \<Rightarrow> int \<Rightarrow> key \<Rightarrow> coord \<Rightarrow> state \<Rightarrow> outcome option"
and flush_buffers :: "nat \<Rightarrow> int \<Rightarrow> state \<Rightarrow> outcome option"
and flush_while :: "nat \<Rightarrow> int \<Rightarrow> state \<Rightarrow> outcome option"
and replay :: "nat \<Rightarrow> int \<Rightarrow> key \<Rightarrow> coord \<Rightarrow> event list \<Rightarrow> state \<Rightarrow> outcome option"
where
  "process_key 0 now k is_pressed ic s = None"
| "process_key (Suc n) now k is_pressed ic s =
     (if is_pressed then on_press n now k ic s else on_release n now k ic s)"

| "on_press 0 now k ic s = None"
| "on_press (Suc n) now k ic s =
     (case on_press_scan now k ic s of
        (Some e, s1, matching_unfinished, longest_timeout) \<Rightarrow> Some (Raise e s1)
      | (None, s1, matching_unfinished, longest_timeout) \<Rightarrow>
          if Combos_match_count s1 = 0 then
            (if pending_combos s1 \<noteq> [] \<or> key_buffer s1 \<noteq> [] then
               and_then (flush_buffers n now s1)
                 (\<lambda>s2. process_key n now k True ic (s2\<lparr>start_timepoint := Some (Some now)\<rparr>))
             else Some (Return (reset_combos (resume_process_key now k True ic s1))))
          else
            (let s2 = s1\<lparr>key_buffer := key_buffer s1 @ [(ic, k, True, now)]\<rparr>
             in if matching_unfinished = 0 then Some (Return (send_pending_combos now s2))
                else Some (Return (set_timeout longest_timeout s2))))"

| "on_release 0 now k ic s = None"
| "on_release (Suc n) now k ic s =
     (case on_release_scan now k ic s of
        (Some e, s1, longest_timeout, propagate_release) \<Rightarrow> Some (Raise e s1)
      | (None, s1, longest_timeout, propagate_release) \<Rightarrow>
          and_then
            (if Combos_match_count s1 = 0
             then Some (Return ((reset_combos s1)\<lparr>key_buffer := []\<rparr>))
             else if longest_timeout \<noteq> 0
             then Some (Return (set_timeout longest_timeout s1))
             else flush_buffers n now s1)
            (\<lambda>s2. Some (Return (if propagate_release
                                 then resume_process_key now k False ic s2 else s2))))"

| "flush_buffers 0 now s = None"
| "flush_buffers (Suc n) now s =
     flush_while n now (if pending_combos s \<noteq> [] then send_pending_combos now s else s)"

| "flush_while 0 now s = None"
| "flush_while (Suc n) now s =
     (case key_buffer s of
        [] \<Rightarrow> Some (Return s)
      | (int_coord, key, is_pressed, timepoint) # rest \<Rightarrow>
          (let s1 = resume_process_key now key is_pressed int_coord (s\<lparr>key_buffer := rest\<rparr>)
           in if is_pressed then
                (let s2 = reset_combos s1;
                     s3 = s2\<lparr>start_timepoint := Some (Some timepoint)\<rparr>;
                     old_buffer = key_buffer s3;
                     s4 = s3\<lparr>key_buffer := []\<rparr>
                 in and_then (replay n now key int_coord old_buffer s4) (flush_while n now))
              else flush_while n now s1))"

| "replay 0 now key int_coord old_buffer s = None"
| "replay (Suc n) now key int_coord [] s = Some (Return s)"
| "replay (Suc n) now key int_coord ((buffer_int_coord, buffer_key, buffer_is_pressed, t) # old_buffer) s =
     and_then
       (process_key n now buffer_key buffer_is_pressed buffer_int_coord
          (if \<not> buffer_is_pressed \<and> key = buffer_key \<and> int_coord = buffer_int_coord
           then resume_process_key now buffer_key buffer_is_pressed buffer_int_coord s
           else s))
       (replay n now key int_coord old_buffer)"

  by pat_completeness auto

termination
  by (relation "measure (case_sum (case_sum fst (case_sum fst fst)) (case_sum fst (case_sum fst fst)))")
     auto

text \<open>\<open>Combos.on_timeout\<close>\<close>

definition on_timeout :: "nat \<Rightarrow> int \<Rightarrow> state \<Rightarrow> outcome option" where
  "on_timeout n now s = flush_buffers n now (s\<lparr>start_timepoint := Some None\<rparr>)"


section \<open>The host's main loop\<close>

text \<open>
  The timers armed after a log of host calls, oldest first: a timer is armed by
  \<open>set_timeout\<close> and disarmed when it is cancelled or when it expires.
\<close>

fun timer_step :: "host_call \<Rightarrow> nat list \<Rightarrow> nat list" where
  "timer_step (SetTimeout h ms) a = a @ [h]"
| "timer_step (CancelTimeout h) a = removeAll h a"
| "timer_step (Fire h) a = removeAll h a"
| "timer_step (Resume now k is_pressed ic) a = a"

definition armed :: "host_call list \<Rightarrow> nat list" where
  "armed cl = fold timer_step cl []"

text \<open>
  Modelled from the spec: the host's main loop, which serialises the entries into the
  module. It delivers a key event through \<open>process_key\<close>, or lets the oldest armed timer
  expire and runs its callback \<open>on_timeout\<close>. Each entry carries the reading of
  \<open>ticks_ms()\<close> during it. A script of entries stops at the first exception.
\<close>

datatype entry = KeyEvent int key bool coord | TimerFires int

fun deliver :: "nat \<Rightarrow> entry \<Rightarrow> state \<Rightarrow> outcome option" where
  "deliver n (KeyEvent now k is_pressed ic) s = process_key n now k is_pressed ic s"
| "deliver n (TimerFires now) s =
     (case armed (calls s) of
        [] \<Rightarrow> Some (Return s)
      | h # hs \<Rightarrow> on_timeout n now (s\<lparr>calls := calls s @ [Fire h]\<rparr>))"

fun run :: "nat \<Rightarrow> entry list \<Rightarrow> state \<Rightarrow> outcome option" where
  "run n [] s = Some (Return s)"
| "run n (e # es) s = and_then (deliver n e s) (run n es)"

text \<open>The events forwarded downstream: time of the call, key, \<open>is_pressed\<close>.\<close>

fun downstream_calls :: "host_call list \<Rightarrow> (int \<times> key \<times> bool) list" where
  "downstream_calls [] = []"
| "downstream_calls (Resume now k is_pressed ic # cl) = (now, k, is_pressed) # downstream_calls cl"
| "downstream_calls (c # cl) = downstream_calls cl"

definition downstream :: "state \<Rightarrow> (int \<times> key \<times> bool) list" where
  "downstream s = downstream_calls (calls s)"

text \<open>A fresh engine over a registry, after \<open>during_bootup\<close>.\<close>

definition booted :: "combo list \<Rightarrow> state" where
  "booted cs = during_bootup (Combos_init cs module_loaded)"

text \<open>The exception a run ended with, if it did.\<close>

definition raised :: "outcome option \<Rightarrow> error option" where
  "raised r = (case r of Some (Raise e s) \<Rightarrow> Some e | _ \<Rightarrow> None)"

section \<open>The registry of the end-to-end scenarios\<close>

text \<open>
  Keys A, B, C and the result keys X, Y, with A, B, C at matrix positions 0, 1, 2;
  \<open>Chord((A, B), X, timeout=50)\<close> and
  \<open>Sequence((A, B, C), Y, timeout=1000, per_key_timeout=True)\<close>.
\<close>

definition KC_A :: key where "KC_A = 4"
definition KC_B :: key where "KC_B = 5"
definition KC_C :: key where "KC_C = 6"
definition KC_X :: key where "KC_X = 27"
definition KC_Y :: key where "KC_Y = 28"

definition chord_AB :: combo where
  "chord_AB = Combo_init Chord [RKey KC_A, RKey KC_B] KC_X None None (Some 50) None"

definition sequence_ABC :: combo where
  "sequence_ABC =
     Combo_init Sequence [RKey KC_A, RKey KC_B, RKey KC_C] KC_Y None (Some True) (Some 1000) None"

definition scenario_registry :: "combo list" where
  "scenario_registry = [chord_AB, sequence_ABC]"

text \<open>
  The input of the sequence scenario: A, B and C tapped one after the other. Every timer
  armed on the way is cancelled by the next event before its 1000 ms have passed.
\<close>

definition completed_sequence_script :: "entry list" where
  "completed_sequence_script =
     [KeyEvent 0 KC_A True (Some 0), KeyEvent 20 KC_A False (Some 0),
      KeyEvent 100 KC_B True (Some 1), KeyEvent 120 KC_B False (Some 1),
      KeyEvent 200 KC_C True (Some 2), KeyEvent 220 KC_C False (Some 2)]"

section \<open>Notions used by the properties\<close>

text \<open>The number of registered combos whose state is MATCHING.\<close>

definition matching_count :: "combo list \<Rightarrow> int" where
  "matching_count cs = int (length (filter (\<lambda>c. cstate c = MATCHING) cs))"

text \<open>A combo as \<open>Combo.__init__\<close> leaves it.\<close>

definition constructed :: "combo \<Rightarrow> bool" where
  "constructed c = (remaining c = [] \<and> pressed c = None \<and> cstate c = RESET)"

text \<open>
  The host calls that concern timers, and the property that at every moment of a log
  (after each of its prefixes) at most one timer is armed.
\<close>

fun is_resume :: "host_call \<Rightarrow> bool" where
  "is_resume (Resume now k is_pressed ic) = True"
| "is_resume c = False"


definition at_most_one_armed :: "host_call list \<Rightarrow> bool" where
  "at_most_one_armed cl = list_all (\<lambda>n. length (armed (take n cl)) \<le> 1) [0..<Suc (length cl)]"

text \<open>
  The states a single engine can be in: it is constructed over freshly constructed combos
  in a world with an idle host, and from then on the host boots it, delivers key events,
  lets an armed timer expire, and runs the timer callback. A call that raises leaves a
  state behind from which the host may go on.
\<close>

inductive reachable :: "state \<Rightarrow> bool" where
  start: "list_all constructed cs \<Longrightarrow> reachable (Combos_init cs module_loaded)"
| bootup: "reachable s \<Longrightarrow> reachable (during_bootup s)"
| key: "reachable s \<Longrightarrow> process_key n now k is_pressed ic s = Some r \<Longrightarrow> reachable (state_of r)"
| callback: "reachable s \<Longrightarrow> on_timeout n now s = Some r \<Longrightarrow> reachable (state_of r)"
| expiry: "reachable s \<Longrightarrow> h \<in> set (armed (calls s)) \<Longrightarrow> reachable (s\<lparr>calls := calls s @ [Fire h]\<rparr>)"

text \<open>The state a script leaves behind (the state itself if the fuel runs out).\<close>

definition state_after :: "entry list \<Rightarrow> state \<Rightarrow> state" where
  "state_after es s = (case run 10 es s of Some r \<Rightarrow> state_of r | None \<Rightarrow> s)"



text \<open>
  Two instances in one world: \<open>seen_by inst w\<close> is the instance \<open>inst\<close> (its instance
  attributes) in the world \<open>w\<close> another instance has left behind (class attributes, host).
\<close>

definition seen_by :: "state \<Rightarrow> state \<Rightarrow> state" where
  "seen_by inst w =
     inst\<lparr>Combos_match_count := Combos_match_count w,
          Combos_start_timepoint := Combos_start_timepoint w,
          calls := calls w, next_handle := next_handle w\<rparr>"

text \<open>
  Invariants of the engine. \<open>match_count_inv\<close>: the class counter is the number of
  MATCHING combos, and pending entries refer to registered combos. \<open>timers_inv\<close>: at most
  one timer was ever armed at a time, and an armed timer is the stored one.
  \<open>cancels_first t0 h\<close>: the log extends \<open>t0\<close>, and either no timer call was made since and
  \<open>h\<close> is still stored, or the first one was \<open>cancel_timeout(h)\<close> and a handle is stored.
\<close>

definition match_count_inv :: "state \<Rightarrow> bool" where
  "match_count_inv s =
     (Combos_match_count s = matching_count (combos s) \<and>
      list_all (\<lambda>i. i < length (combos s)) (pending_combos s))"

definition timers_inv :: "state \<Rightarrow> bool" where
  "timers_inv s =
     (at_most_one_armed (calls s) \<and> set (armed (calls s)) \<subseteq> set_option (timeout_handle s))"


text \<open>
  \<open>establishes P Q f\<close>: a call of \<open>f\<close> that finishes (returning or raising) from a state
  with \<open>P\<close> leaves a state with \<open>Q\<close>. \<open>all_establish P Q n\<close> says so for the handlers
  with fuel \<open>n\<close>: the three that start by cancelling the stored timer take \<open>P\<close> to \<open>Q\<close>,
  the flush functions keep \<open>Q\<close>.
\<close>

definition establishes :: "(state \<Rightarrow> bool) \<Rightarrow> (state \<Rightarrow> bool) \<Rightarrow> (state \<Rightarrow> outcome option) \<Rightarrow> bool" where
  "establishes P Q f = (\<forall>s r. P s \<longrightarrow> f s = Some r \<longrightarrow> Q (state_of r))"

definition all_establish :: "(state \<Rightarrow> bool) \<Rightarrow> (state \<Rightarrow> bool) \<Rightarrow> nat \<Rightarrow> bool" where
  "all_establish P Q n =
     ((\<forall>now k p ic. establishes P Q (process_key n now k p ic)) \<and>
      (\<forall>now k ic. establishes P Q (on_press n now k ic)) \<and>
      (\<forall>now k ic. establishes P Q (on_release n now k ic)) \<and>
      (\<forall>now. establishes Q Q (flush_buffers n now)) \<and>
      (\<forall>now. establishes Q Q (flush_while n now)) \<and>
      (\<forall>now k ic ob. establishes Q Q (replay n now k ic ob)))"

section \<open>Resetting the registry\<close>

lemma reset_again: "reset (c, mc) = (c', mc') \<Longrightarrow> reset (c', m) = (c', m)"
  by (auto simp: reset_def set_state_def Let_def split: if_splits)

lemma reset_all_again: "reset_all cs mc = (cs', mc') \<Longrightarrow> reset_all cs' m = (cs', m)"
proof (induction cs arbitrary: mc cs' mc' m)
  case Nil
  then show ?case by simp
next
  case (Cons c cs)
  obtain c1 mc1 where h: "(if cstate c \<noteq> ACTIVE then reset (c, mc) else (c, mc)) = (c1, mc1)"
    by fastforce
  obtain cs2 mc2 where t: "reset_all cs mc1 = (cs2, mc2)" by fastforce
  from Cons.prems h t have eq: "cs' = c1 # cs2" by auto
  have h2: "(if cstate c1 \<noteq> ACTIVE then reset (c1, m) else (c1, m)) = (c1, m)"
  proof (cases "cstate c = ACTIVE")
    case True with h show ?thesis by auto
  next
    case False
    with h have r: "reset (c, mc) = (c1, mc1)" by simp
    then show ?thesis using reset_again by simp
  qed
  from Cons.IH [OF t] have "reset_all cs2 m = (cs2, m)" .
  with h2 eq show ?case by simp
qed

text \<open>
  C8. Calling \<open>reset_combos\<close> twice leaves the same state (every combo's \<open>remaining\<close>,
  \<open>pressed\<close> and \<open>state\<close>, and \<open>match_count\<close>) as calling it once. This holds in every
  state, so in particular on an idle engine.
\<close>

theorem reset_combos_idempotent: "reset_combos (reset_combos s) = reset_combos s"
proof -
  obtain cs mc where r: "reset_all (combos s) (Combos_match_count s) = (cs, mc)" by fastforce
  then show ?thesis using reset_all_again [OF r, of mc] by (simp add: reset_combos_def)
qed

section \<open>A proof rule for the handlers\<close>

text \<open>
  The handlers are built from a few steps: the two scans, the host calls, the registry
  reset, the commit and plain assignments. A property kept by the steps is kept by the
  handlers, whatever the fuel; the proof is by induction on the fuel.
\<close>

lemma establishesI: "(\<And>s r. P s \<Longrightarrow> f s = Some r \<Longrightarrow> Q (state_of r)) \<Longrightarrow> establishes P Q f"
  by (simp add: establishes_def)

lemma establishesD: "establishes P Q f \<Longrightarrow> P s \<Longrightarrow> f s = Some r \<Longrightarrow> Q (state_of r)"
  by (simp add: establishes_def)

lemma and_then_cases:
  assumes "and_then m f = Some r"
  obtains (raise) e s where "m = Some (Raise e s)" "r = Raise e s"
        | (return) s where "m = Some (Return s)" "f s = Some r"
  using assms by (auto simp: and_then_def split: option.splits outcome.splits)

lemma establishes_and_then:
  assumes "P s" "and_then (f s) g = Some r" "establishes P Q f" "establishes Q Q g"
  shows "Q (state_of r)"
  using assms(2)
proof (cases rule: and_then_cases)
  case (raise e s')
  from establishesD [OF assms(3) assms(1) raise(1)] raise(2) show ?thesis by simp
next
  case (return s')
  from establishesD [OF assms(3) assms(1) return(1)] have "Q s'" by simp
  from establishesD [OF assms(4) this return(2)] show ?thesis .
qed

lemma engine_establishes:
  fixes P Q :: "state \<Rightarrow> bool"
  assumes weaken: "\<And>s. Q s \<Longrightarrow> P s"
    and scan_p: "\<And>now k ic s e s' u l. P s \<Longrightarrow> on_press_scan now k ic s = (e, s', u, l) \<Longrightarrow> Q s'"
    and scan_r: "\<And>now k ic s e s' l p. P s \<Longrightarrow> on_release_scan now k ic s = (e, s', l, p) \<Longrightarrow> Q s'"
    and resume: "\<And>now k p ic s. Q s \<Longrightarrow> Q (resume_process_key now k p ic s)"
    and resetc: "\<And>s. Q s \<Longrightarrow> Q (reset_combos s)"
    and buf: "\<And>s b. Q s \<Longrightarrow> Q (s\<lparr>key_buffer := b\<rparr>)"
    and stp: "\<And>s v. Q s \<Longrightarrow> Q (s\<lparr>start_timepoint := v\<rparr>)"
    and send: "\<And>now s. Q s \<Longrightarrow> Q (send_pending_combos now s)"
    and arm_p: "\<And>now k ic s s' u l b. P s \<Longrightarrow> on_press_scan now k ic s = (None, s', u, l)
                  \<Longrightarrow> Q (set_timeout l (s'\<lparr>key_buffer := b\<rparr>))"
    and arm_r: "\<And>now k ic s s' l p. P s \<Longrightarrow> on_release_scan now k ic s = (None, s', l, p)
                  \<Longrightarrow> Q (set_timeout l s')"
  shows "all_establish P Q n"
proof (induction n)
  case 0
  show ?case by (simp add: all_establish_def establishes_def)
next
  case (Suc n)
  then have ih_pk: "\<And>now k p ic. establishes P Q (process_key n now k p ic)"
    and ih_op: "\<And>now k ic. establishes P Q (on_press n now k ic)"
    and ih_or: "\<And>now k ic. establishes P Q (on_release n now k ic)"
    and ih_fb: "\<And>now. establishes Q Q (flush_buffers n now)"
    and ih_fw: "\<And>now. establishes Q Q (flush_while n now)"
    and ih_rp: "\<And>now k ic ob. establishes Q Q (replay n now k ic ob)"
    by (simp_all add: all_establish_def)
  have ih_pkQ: "establishes Q Q (process_key n now k p ic)" for now k p ic
    using ih_pk [of now k p ic] weaken by (auto simp: establishes_def)
  have pk: "establishes P Q (process_key (Suc n) now k p ic)" for now k p ic
    using ih_op [of now k ic] ih_or [of now k ic] by (cases p) (auto simp: establishes_def)
  have op: "establishes P Q (on_press (Suc n) now k ic)" for now k ic
  proof (rule establishesI)
    fix s r assume I: "P s" and run: "on_press (Suc n) now k ic s = Some r"
    obtain e s1 u l where scan: "on_press_scan now k ic s = (e, s1, u, l)"
      by (metis prod_cases4)
    have I1: "Q s1" using scan_p [OF I scan] .
    show "Q (state_of r)"
    proof (cases e)
      case (Some err)
      with run scan I1 show ?thesis by auto
    next
      case None
      note scanN = scan [unfolded None]
      show ?thesis
      proof (cases "Combos_match_count s1 = 0")
        case True
        show ?thesis
        proof (cases "pending_combos s1 \<noteq> [] \<or> key_buffer s1 \<noteq> []")
          case True
          with run scanN \<open>Combos_match_count s1 = 0\<close>
          have "and_then (flush_buffers n now s1)
                  (\<lambda>s2. process_key n now k True ic (s2\<lparr>start_timepoint := Some (Some now)\<rparr>)) = Some r"
            by auto
          moreover have "establishes Q Q (\<lambda>s2. process_key n now k True ic (s2\<lparr>start_timepoint := Some (Some now)\<rparr>))"
          proof (rule establishesI)
            fix s2 r2 assume "Q s2"
              and "process_key n now k True ic (s2\<lparr>start_timepoint := Some (Some now)\<rparr>) = Some r2"
            with stp [of s2] establishesD [OF ih_pkQ] show "Q (state_of r2)" by blast
          qed
          ultimately show ?thesis using establishes_and_then [OF I1 _ ih_fb] by blast
        next
          case False
          with run scanN \<open>Combos_match_count s1 = 0\<close>
          have "r = Return (reset_combos (resume_process_key now k True ic s1))" by auto
          with I1 resume resetc show ?thesis by simp
        qed
      next
        case False
        show ?thesis
        proof (cases "u = 0")
          case True
          with run scanN False
          have "r = Return (send_pending_combos now (s1\<lparr>key_buffer := key_buffer s1 @ [(ic, k, True, now)]\<rparr>))"
            by (auto simp: Let_def)
          with I1 buf send show ?thesis by simp
        next
          case nz: False
          with run scanN False
          have "r = Return (set_timeout l (s1\<lparr>key_buffer := key_buffer s1 @ [(ic, k, True, now)]\<rparr>))"
            by (auto simp: Let_def)
          with arm_p [OF I scanN] show ?thesis by simp
        qed
      qed
    qed
  qed
  have orl: "establishes P Q (on_release (Suc n) now k ic)" for now k ic
  proof (rule establishesI)
    fix s r assume I: "P s" and run: "on_release (Suc n) now k ic s = Some r"
    obtain e s1 l p where scan: "on_release_scan now k ic s = (e, s1, l, p)"
      by (metis prod_cases4)
    have I1: "Q s1" using scan_r [OF I scan] .
    show "Q (state_of r)"
    proof (cases e)
      case (Some err)
      with run scan I1 show ?thesis by auto
    next
      case None
      note scanN = scan [unfolded None]
      let ?m = "if Combos_match_count s1 = 0
             then Some (Return ((reset_combos s1)\<lparr>key_buffer := []\<rparr>))
             else if l \<noteq> 0
             then Some (Return (set_timeout l s1))
             else flush_buffers n now s1"
      let ?g = "\<lambda>s2. Some (Return (if p then resume_process_key now k False ic s2 else s2))"
      from run scanN have at: "and_then ?m ?g = Some r" by simp
      have g: "establishes Q Q ?g" using resume by (auto simp: establishes_def)
      from at show ?thesis
      proof (cases rule: and_then_cases)
        case (raise e' s')
        then have "flush_buffers n now s1 = Some (Raise e' s')" by (auto split: if_splits)
        from establishesD [OF ih_fb I1 this] raise show ?thesis by simp
      next
        case (return s')
        have "Q s'"
        proof (cases "Combos_match_count s1 = 0")
          case True
          with return have "s' = (reset_combos s1)\<lparr>key_buffer := []\<rparr>" by simp
          with I1 resetc buf show ?thesis by simp
        next
          case False
          show ?thesis
          proof (cases "l \<noteq> 0")
            case True
            with return False have "s' = set_timeout l s1" by simp
            with arm_r [OF I scanN] show ?thesis by simp
          next
            case l0: False
            with return False have "flush_buffers n now s1 = Some (Return s')" by simp
            from establishesD [OF ih_fb I1 this] show ?thesis by simp
          qed
        qed
        from establishesD [OF g this return(2)] show ?thesis .
      qed
    qed
  qed
  have fb: "establishes Q Q (flush_buffers (Suc n) now)" for now
    using ih_fw [of now] send by (auto simp: establishes_def)
  have fw: "establishes Q Q (flush_while (Suc n) now)" for now
  proof (rule establishesI)
    fix s r assume I: "Q s" and run: "flush_while (Suc n) now s = Some r"
    show "Q (state_of r)"
    proof (cases "key_buffer s")
      case Nil
      with run I show ?thesis by auto
    next
      case (Cons ev rest)
      obtain ic k p tp where ev: "ev = (ic, k, p, tp)" by (metis prod_cases4)
      let ?s1 = "resume_process_key now k p ic (s\<lparr>key_buffer := rest\<rparr>)"
      have I1: "Q ?s1" using I buf resume by simp
      show ?thesis
      proof (cases p)
        case True
        let ?s3 = "(reset_combos ?s1)\<lparr>start_timepoint := Some (Some tp)\<rparr>"
        let ?s4 = "?s3\<lparr>key_buffer := []\<rparr>"
        have I4: "Q ?s4" using I1 resetc stp buf by simp
        from run Cons ev True
        have "and_then (replay n now k ic (key_buffer ?s3) ?s4) (flush_while n now) = Some r"
          by (simp add: Let_def)
        then show ?thesis
          using establishes_and_then [OF I4 _ ih_rp ih_fw] by blast
      next
        case False
        with run Cons ev have "flush_while n now ?s1 = Some r" by (simp add: Let_def)
        from establishesD [OF ih_fw I1 this] show ?thesis .
      qed
    qed
  qed
  have rp: "establishes Q Q (replay (Suc n) now k ic ob)" for now k ic ob
  proof (rule establishesI)
    fix s r assume I: "Q s" and run: "replay (Suc n) now k ic ob s = Some r"
    show "Q (state_of r)"
    proof (cases ob)
      case Nil
      with run I show ?thesis by auto
    next
      case (Cons ev old)
      obtain bc bk bp t where ev: "ev = (bc, bk, bp, t)" by (metis prod_cases4)
      let ?s1 = "if \<not> bp \<and> k = bk \<and> ic = bc then resume_process_key now bk bp bc s else s"
      have I1: "Q ?s1" using I resume by simp
      from run Cons ev
      have "and_then (process_key n now bk bp bc ?s1) (replay n now k ic old) = Some r"
        by simp
      then show ?thesis using establishes_and_then [OF I1 _ ih_pkQ ih_rp] by blast
    qed
  qed
  show ?case unfolding all_establish_def using pk op orl fb fw rp by blast
qed

section \<open>More fuel changes nothing\<close>

text \<open>
  A call that finishes with some fuel finishes with the same outcome with any larger
  amount: the fuel only bounds the depth of the calls, it is not part of the behaviour.
\<close>

lemma and_then_mono:
  assumes "and_then m f = Some r"
    and "\<And>x. m = Some x \<Longrightarrow> m' = Some x"
    and "\<And>s x. f s = Some x \<Longrightarrow> f' s = Some x"
  shows "and_then m' f' = Some r"
  using assms(1)
proof (cases rule: and_then_cases)
  case (raise e s)
  with assms(2) show ?thesis by (simp add: and_then_def)
next
  case (return s)
  with assms(2) [OF return(1)] assms(3) [OF return(2)] show ?thesis by (simp add: and_then_def)
qed

lemma more_fuel_step:
  "(\<forall>now k p ic s r. process_key n now k p ic s = Some r \<longrightarrow> process_key (Suc n) now k p ic s = Some r) \<and>
   (\<forall>now k ic s r. on_press n now k ic s = Some r \<longrightarrow> on_press (Suc n) now k ic s = Some r) \<and>
   (\<forall>now k ic s r. on_release n now k ic s = Some r \<longrightarrow> on_release (Suc n) now k ic s = Some r) \<and>
   (\<forall>now s r. flush_buffers n now s = Some r \<longrightarrow> flush_buffers (Suc n) now s = Some r) \<and>
   (\<forall>now s r. flush_while n now s = Some r \<longrightarrow> flush_while (Suc n) now s = Some r) \<and>
   (\<forall>now k ic ob s r. replay n now k ic ob s = Some r \<longrightarrow> replay (Suc n) now k ic ob s = Some r)"
proof (induction n)
  case 0
  show ?case by simp
next
  case (Suc n)
  then have pk: "\<And>now k p ic s r. process_key n now k p ic s = Some r \<Longrightarrow> process_key (Suc n) now k p ic s = Some r"
    and op: "\<And>now k ic s r. on_press n now k ic s = Some r \<Longrightarrow> on_press (Suc n) now k ic s = Some r"
    and orl: "\<And>now k ic s r. on_release n now k ic s = Some r \<Longrightarrow> on_release (Suc n) now k ic s = Some r"
    and fb: "\<And>now s r. flush_buffers n now s = Some r \<Longrightarrow> flush_buffers (Suc n) now s = Some r"
    and fw: "\<And>now s r. flush_while n now s = Some r \<Longrightarrow> flush_while (Suc n) now s = Some r"
    and rp: "\<And>now k ic ob s r. replay n now k ic ob s = Some r \<Longrightarrow> replay (Suc n) now k ic ob s = Some r"
    by simp_all
  have 1: "process_key (Suc (Suc n)) now k p ic s = Some r"
    if "process_key (Suc n) now k p ic s = Some r" for now k p ic s r
    using that op orl by (cases p) auto
  have 2: "on_press (Suc (Suc n)) now k ic s = Some r"
    if a: "on_press (Suc n) now k ic s = Some r" for now k ic s r
  proof -
    obtain e s1 u l where scan: "on_press_scan now k ic s = (e, s1, u, l)" by (metis prod_cases4)
    show ?thesis
    proof (cases "e = None \<and> Combos_match_count s1 = 0 \<and> (pending_combos s1 \<noteq> [] \<or> key_buffer s1 \<noteq> [])")
      case True
      with a scan have "and_then (flush_buffers n now s1)
          (\<lambda>s2. process_key n now k True ic (s2\<lparr>start_timepoint := Some (Some now)\<rparr>)) = Some r"
        by auto
      then have "and_then (flush_buffers (Suc n) now s1)
          (\<lambda>s2. process_key (Suc n) now k True ic (s2\<lparr>start_timepoint := Some (Some now)\<rparr>)) = Some r"
      proof (rule and_then_mono)
        fix x assume "flush_buffers n now s1 = Some x"
        then show "flush_buffers (Suc n) now s1 = Some x" by (rule fb)
      next
        fix s2 x
        assume "process_key n now k True ic (s2\<lparr>start_timepoint := Some (Some now)\<rparr>) = Some x"
        then show "process_key (Suc n) now k True ic (s2\<lparr>start_timepoint := Some (Some now)\<rparr>) = Some x"
          by (rule pk)
      qed
      with True scan show ?thesis by auto
    next
      case False
      with a scan show ?thesis by (cases e) (auto simp: Let_def split: if_splits)
    qed
  qed
  have 3: "on_release (Suc (Suc n)) now k ic s = Some r"
    if a: "on_release (Suc n) now k ic s = Some r" for now k ic s r
  proof -
    obtain e s1 l p where scan: "on_release_scan now k ic s = (e, s1, l, p)" by (metis prod_cases4)
    show ?thesis
    proof (cases e)
      case (Some err)
      with a scan show ?thesis by auto
    next
      case None
      with a scan have "and_then
            (if Combos_match_count s1 = 0
             then Some (Return ((reset_combos s1)\<lparr>key_buffer := []\<rparr>))
             else if l \<noteq> 0
             then Some (Return (set_timeout l s1))
             else flush_buffers n now s1)
            (\<lambda>s2. Some (Return (if p then resume_process_key now k False ic s2 else s2))) = Some r"
        by simp
      then have "and_then
            (if Combos_match_count s1 = 0
             then Some (Return ((reset_combos s1)\<lparr>key_buffer := []\<rparr>))
             else if l \<noteq> 0
             then Some (Return (set_timeout l s1))
             else flush_buffers (Suc n) now s1)
            (\<lambda>s2. Some (Return (if p then resume_process_key now k False ic s2 else s2))) = Some r"
      proof (rule and_then_mono)
        fix x
        assume "(if Combos_match_count s1 = 0
             then Some (Return ((reset_combos s1)\<lparr>key_buffer := []\<rparr>))
             else if l \<noteq> 0
             then Some (Return (set_timeout l s1))
             else flush_buffers n now s1) = Some x"
        then show "(if Combos_match_count s1 = 0
             then Some (Return ((reset_combos s1)\<lparr>key_buffer := []\<rparr>))
             else if l \<noteq> 0
             then Some (Return (set_timeout l s1))
             else flush_buffers (Suc n) now s1) = Some x"
          using fb [of now s1 x] by (simp split: if_splits del: flush_buffers.simps)
      qed simp
      with None scan show ?thesis by simp
    qed
  qed
  have 4: "flush_buffers (Suc (Suc n)) now s = Some r"
    if "flush_buffers (Suc n) now s = Some r" for now s r
    using that fw by auto
  have 5: "flush_while (Suc (Suc n)) now s = Some r"
    if a: "flush_while (Suc n) now s = Some r" for now s r
  proof (cases "key_buffer s")
    case Nil
    with a show ?thesis by simp
  next
    case (Cons ev rest)
    obtain ic k p tp where ev: "ev = (ic, k, p, tp)" by (metis prod_cases4)
    show ?thesis
    proof (cases p)
      case True
      let ?s1 = "resume_process_key now k p ic (s\<lparr>key_buffer := rest\<rparr>)"
      let ?s3 = "(reset_combos ?s1)\<lparr>start_timepoint := Some (Some tp)\<rparr>"
      from a Cons ev True
      have "and_then (replay n now k ic (key_buffer ?s3) (?s3\<lparr>key_buffer := []\<rparr>)) (flush_while n now) = Some r"
        by (simp add: Let_def)
      then have "and_then (replay (Suc n) now k ic (key_buffer ?s3) (?s3\<lparr>key_buffer := []\<rparr>)) (flush_while (Suc n) now) = Some r"
      proof (rule and_then_mono)
        fix x assume "replay n now k ic (key_buffer ?s3) (?s3\<lparr>key_buffer := []\<rparr>) = Some x"
        then show "replay (Suc n) now k ic (key_buffer ?s3) (?s3\<lparr>key_buffer := []\<rparr>) = Some x"
          by (rule rp)
      next
        fix s2 x assume "flush_while n now s2 = Some x"
        then show "flush_while (Suc n) now s2 = Some x" by (rule fw)
      qed
      with Cons ev True show ?thesis by (simp add: Let_def)
    next
      case False
      with a Cons ev fw show ?thesis by (simp add: Let_def)
    qed
  qed
  have 6: "replay (Suc (Suc n)) now k ic ob s = Some r"
    if a: "replay (Suc n) now k ic ob s = Some r" for now k ic ob s r
  proof (cases ob)
    case Nil
    with a show ?thesis by simp
  next
    case (Cons ev old)
    obtain bc bk bp t where ev: "ev = (bc, bk, bp, t)" by (metis prod_cases4)
    let ?s1 = "if \<not> bp \<and> k = bk \<and> ic = bc then resume_process_key now bk bp bc s else s"
    from a Cons ev have "and_then (process_key n now bk bp bc ?s1) (replay n now k ic old) = Some r"
      by simp
    then have "and_then (process_key (Suc n) now bk bp bc ?s1) (replay (Suc n) now k ic old) = Some r"
    proof (rule and_then_mono)
      fix x assume "process_key n now bk bp bc ?s1 = Some x"
      then show "process_key (Suc n) now bk bp bc ?s1 = Some x" by (rule pk)
    next
      fix s2 x assume "replay n now k ic old s2 = Some x"
      then show "replay (Suc n) now k ic old s2 = Some x" by (rule rp)
    qed
    with Cons ev show ?thesis by simp
  qed
  show ?case using 1 2 3 4 5 6 by blast
qed

lemma process_key_more_fuel:
  "process_key n now k p ic s = Some r \<Longrightarrow> process_key (n + m) now k p ic s = Some r"
  by (induction m) (use more_fuel_step in auto)

lemma flush_buffers_more_fuel:
  "flush_buffers n now s = Some r \<Longrightarrow> flush_buffers (n + m) now s = Some r"
  by (induction m) (use more_fuel_step in auto)

lemma deliver_more_fuel: "deliver n e s = Some r \<Longrightarrow> deliver (n + m) e s = Some r"
  by (cases e)
     (auto simp: on_timeout_def process_key_more_fuel flush_buffers_more_fuel split: list.splits)

lemma run_more_fuel: "run n es s = Some r \<Longrightarrow> run (n + m) es s = Some r"
proof (induction es arbitrary: s r)
  case Nil
  then show ?case by simp
next
  case (Cons e es)
  from Cons.prems have "and_then (deliver n e s) (run n es) = Some r" by simp
  then have "and_then (deliver (n + m) e s) (run (n + m) es) = Some r"
  proof (rule and_then_mono)
    fix x assume "deliver n e s = Some x"
    then show "deliver (n + m) e s = Some x" by (rule deliver_more_fuel)
  next
    fix s' x assume "run n es s' = Some x"
    then show "run (n + m) es s' = Some x" by (rule Cons.IH)
  qed
  then show ?case by simp
qed

lemma run_returns_more_fuel:
  assumes "(case run n es s of Some (Return s') \<Rightarrow> P s' | _ \<Rightarrow> False)"
  shows "(case run (n + m) es s of Some (Return s') \<Rightarrow> P s' | _ \<Rightarrow> False)"
proof -
  from assms obtain s' where r: "run n es s = Some (Return s')" and p: "P s'"
    by (auto split: option.splits outcome.splits)
  from run_more_fuel [OF r] p show ?thesis by simp
qed

lemma run_raises_more_fuel:
  assumes "raised (run n es s) = Some e"
  shows "raised (run (n + m) es s) = Some e"
proof -
  from assms obtain s' where r: "run n es s = Some (Raise e s')"
    by (auto simp: raised_def split: option.splits outcome.splits)
  from run_more_fuel [OF r] show ?thesis by (simp add: raised_def)
qed

section \<open>End-to-end scenarios\<close>

text \<open>The scenarios finish with fuel 10, hence with any fuel \<open>10 + m\<close>.\<close>

text \<open>
  C6. Registry \<open>Chord({A,B} -> X, 50)\<close>, \<open>Sequence([A,B,C] -> Y, 1000)\<close>; press A at 0,
  press C at 5 (the timer armed at 0 for 1000 ms has not expired). After the press of A
  nothing has been forwarded: A sits in the key buffer, waiting on timer 1. The press of
  C, which is in no combo, makes the engine replay the buffered A and then forward C, both
  while it handles the event at time 5. Downstream has then received exactly the press of
  A followed by the press of C, X is never emitted, and the buffer is empty.
\<close>

theorem abandoned_chord_replays_A_then_C:
  "(case run (10 + m) [KeyEvent 0 KC_A True (Some 0)] (booted scenario_registry) of
      Some (Return s) \<Rightarrow>
        downstream s = [] \<and> key_buffer s = [(Some 0, KC_A, True, 0)] \<and> armed (calls s) = [1]
    | _ \<Rightarrow> False) \<and>
   (case run (10 + m) [KeyEvent 0 KC_A True (Some 0), KeyEvent 5 KC_C True (Some 2)]
           (booted scenario_registry) of
      Some (Return s) \<Rightarrow>
        downstream s = [(5, KC_A, True), (5, KC_C, True)] \<and> key_buffer s = []
    | _ \<Rightarrow> False)"
  by (rule conjI; rule run_returns_more_fuel) code_simp+

text \<open>
  C3, as stated. Same registry; A, B and C tapped at 0/20, 100/120, 200/220. The specified
  output, Y pressed at 200 and released at 220 and nothing else, is not what the engine
  forwards.
\<close>

theorem sequence_completion_not_as_specified:
  "run 10 completed_sequence_script (booted scenario_registry) \<noteq> None \<and>
   raised (run 10 completed_sequence_script (booted scenario_registry)) = None \<and>
   downstream (state_after completed_sequence_script (booted scenario_registry))
     \<noteq> [(200, KC_Y, True), (220, KC_Y, False)]"
  by code_simp

text \<open>
  C3, amended. Up to and including the press of C at 200 the downstream output is exactly
  Y pressed at 200 immediately followed by Y released at 200: the commit at the press of C
  finds A and B already released in the buffer, so it activates and at once deactivates
  the sequence. Handling the release of C at 220 emits no further Y event, and nothing
  else either, apart from what becomes of the release of C itself, on which this statement
  is silent.
\<close>

theorem sequence_completion_taps_Y_at_200:
  "(case run (10 + m) (butlast completed_sequence_script) (booted scenario_registry) of
      Some (Return s) \<Rightarrow> downstream s = [(200, KC_Y, True), (200, KC_Y, False)]
    | _ \<Rightarrow> False) \<and>
   (case run (10 + m) completed_sequence_script (booted scenario_registry) of
      Some (Return s) \<Rightarrow>
        filter (\<lambda>ev. \<not> (fst (snd ev) = KC_C \<and> \<not> snd (snd ev))) (downstream s)
          = [(200, KC_Y, True), (200, KC_Y, False)]
    | _ \<Rightarrow> False)"
  by (rule conjI; rule run_returns_more_fuel) code_simp+

text \<open>
  C1, the failing input. Same registry; A is pressed at 0 and released at 20, and the
  timer armed at 20 expires at 1020. No combo completes, the raw input is the press and
  the release of A, but downstream receives the release twice: \<open>flush_buffers\<close> forwards
  the buffered release itself and then hands it to \<open>process_key\<close>, which forwards it again.
\<close>

theorem flushed_release_is_forwarded_twice:
  "(case run (10 + m) [KeyEvent 0 KC_A True (Some 0), KeyEvent 20 KC_A False (Some 0), TimerFires 1020]
           (booted scenario_registry) of
      Some (Return s) \<Rightarrow>
        map snd (downstream s) = [(KC_A, True), (KC_A, False), (KC_A, False)]
    | _ \<Rightarrow> False)"
  by (rule run_returns_more_fuel) code_simp

text \<open>
  C2, the failing input. Registry \<open>Chord({A,B} -> X, 50)\<close> alone. A is pressed at 0, the
  50 ms timer expires at 50 and flushes A (which sets \<open>start_timepoint\<close> to 0), B is
  pressed at 80. The delta is 80 ms, not below the timeout of 50, yet the chord consumes B
  and stays alive: it is still MATCHING with only A remaining, B is buffered and not
  forwarded. When the timer callback is not delivered in between, the press of B at 80
  even completes the chord and X is emitted. The code compares the delta divided by 1000
  with the timeout.
\<close>

theorem chord_alive_after_80_ms:
  "(case run (10 + m) [KeyEvent 0 KC_A True (Some 0), TimerFires 50, KeyEvent 80 KC_B True (Some 1)]
           (booted [chord_AB]) of
      Some (Return s) \<Rightarrow>
        downstream s = [(50, KC_A, True)] \<and>
        key_buffer s = [(Some 1, KC_B, True, 80)] \<and>
        map cstate (combos s) = [MATCHING] \<and>
        map remaining (combos s) = [RKey KC_A] # [] \<and>
        get_start_timepoint s = Some 0
    | _ \<Rightarrow> False) \<and>
   (case run (10 + m) [KeyEvent 0 KC_A True (Some 0), KeyEvent 80 KC_B True (Some 1)]
           (booted [chord_AB]) of
      Some (Return s) \<Rightarrow> downstream s = [(80, KC_X, True)]
    | _ \<Rightarrow> False)"
  by (rule conjI; rule run_returns_more_fuel) code_simp+

text \<open>
  C5, the failing input. Same registry as C6; A, B, C are pressed at 0, 10, 20 and held,
  which completes and activates the sequence; C is released at 30. \<open>on_release\<close> finds the
  sequence ACTIVE, resets it (emptying \<open>pressed\<close>), finds it MATCHING in the next
  \<open>if\<close> and calls \<open>unpress\<close>, whose \<open>list.remove\<close> raises \<open>ValueError\<close>.
\<close>

theorem release_of_active_sequence_key_raises:
  "raised (run (10 + m) [KeyEvent 0 KC_A True (Some 0), KeyEvent 10 KC_B True (Some 1),
                   KeyEvent 20 KC_C True (Some 2), KeyEvent 30 KC_C False (Some 2)]
             (booted scenario_registry)) = Some ValueError"
  by (rule run_raises_more_fuel) code_simp

section \<open>What the steps change\<close>

text \<open>
  The scans, the registry reset and the commit leave the stored handle, the handle supply
  and the class attribute \<open>start_timepoint\<close> alone, and add to the log of host calls only
  the cancellation at entry and forwarded events.
\<close>

lemma cancel_fields [simp]:
  "timeout_handle (cancel_stored_timeout s) = timeout_handle s"
  "next_handle (cancel_stored_timeout s) = next_handle s"
  "Combos_start_timepoint (cancel_stored_timeout s) = Combos_start_timepoint s"
  "Combos_match_count (cancel_stored_timeout s) = Combos_match_count s"
  "combos (cancel_stored_timeout s) = combos s"
  "key_buffer (cancel_stored_timeout s) = key_buffer s"
  "pending_combos (cancel_stored_timeout s) = pending_combos s"
  by (simp_all add: cancel_stored_timeout_def split: option.splits)

lemma on_press_scan_frame:
  assumes "on_press_scan now k ic s = (e, s', u, l)"
  shows "calls s' = calls (cancel_stored_timeout s)"
    and "timeout_handle s' = timeout_handle s"
    and "next_handle s' = next_handle s"
    and "Combos_start_timepoint s' = Combos_start_timepoint s"
    and "key_buffer s' = key_buffer s"
  using assms
  by (auto simp: on_press_scan_def Let_def split: prod.splits if_splits)

lemma release_combo_calls:
  assumes "release_combo now k ic c (mc, cl, v) = (e, c', mc', cl', v')"
  shows "\<exists>ks. cl' = cl @ ks \<and> list_all is_resume ks"
  using assms
  by (auto simp: release_combo_def deactivate_def split: prod.splits sum.splits bool.splits if_splits)

lemma release_loop_calls:
  "release_loop now k ic cs (mc, cl, v) = (e, cs', mc', cl', v')
   \<Longrightarrow> \<exists>ks. cl' = cl @ ks \<and> list_all is_resume ks"
proof (induction cs arbitrary: mc cl v e cs' mc' cl' v')
  case Nil
  then show ?case by simp
next
  case (Cons c cs)
  obtain e1 c1 mc1 cl1 v1 where b: "release_combo now k ic c (mc, cl, v) = (e1, c1, mc1, cl1, v1)"
    by (metis prod_cases5)
  from release_combo_calls [OF b] obtain ks1 where k1: "cl1 = cl @ ks1" "list_all is_resume ks1"
    by blast
  show ?case
  proof (cases e1)
    case (Some err)
    with Cons.prems b have "cl' = cl1" by simp
    with k1 show ?thesis by blast
  next
    case None
    obtain e2 cs2 mc2 cl2 v2 where l: "release_loop now k ic cs (mc1, cl1, v1) = (e2, cs2, mc2, cl2, v2)"
      by (metis prod_cases5)
    from Cons.IH [OF l] obtain ks2 where k2: "cl2 = cl1 @ ks2" "list_all is_resume ks2" by blast
    from Cons.prems b None l have "cl' = cl2" by simp
    with k1 k2 show ?thesis by auto
  qed
qed

lemma on_release_scan_frame:
  assumes "on_release_scan now k ic s = (e, s', l, p)"
  shows "\<exists>ks. calls s' = calls (cancel_stored_timeout s) @ ks \<and> list_all is_resume ks"
    and "timeout_handle s' = timeout_handle s"
    and "next_handle s' = next_handle s"
    and "Combos_start_timepoint s' = Combos_start_timepoint s"
proof -
  obtain e1 cs mc cl lt pr br where
    l: "release_loop now k ic (combos (cancel_stored_timeout s))
          (Combos_match_count (cancel_stored_timeout s), calls (cancel_stored_timeout s), (0, True, False))
        = (e1, cs, mc, cl, (lt, pr, br))"
    by (metis prod_cases5 prod_cases3)
  from release_loop_calls [OF l] obtain ks where
    ks: "cl = calls (cancel_stored_timeout s) @ ks" "list_all is_resume ks" by blast
  from assms l have "calls s' = cl" "timeout_handle s' = timeout_handle s"
    "next_handle s' = next_handle s" "Combos_start_timepoint s' = Combos_start_timepoint s"
    by (auto simp: on_release_scan_def Let_def split: option.splits if_splits)
  with ks show "\<exists>ks. calls s' = calls (cancel_stored_timeout s) @ ks \<and> list_all is_resume ks"
    and "timeout_handle s' = timeout_handle s"
    and "next_handle s' = next_handle s"
    and "Combos_start_timepoint s' = Combos_start_timepoint s"
    by auto
qed

lemma reset_combos_fields [simp]:
  "calls (reset_combos s) = calls s"
  "timeout_handle (reset_combos s) = timeout_handle s"
  "next_handle (reset_combos s) = next_handle s"
  "Combos_start_timepoint (reset_combos s) = Combos_start_timepoint s"
  "key_buffer (reset_combos s) = key_buffer s"
  "pending_combos (reset_combos s) = pending_combos s"
  "start_timepoint (reset_combos s) = start_timepoint s"
  by (simp_all add: reset_combos_def split: prod.splits)

lemma resume_fields [simp]:
  "calls (resume_process_key now k p ic s) = calls s @ [Resume now k p ic]"
  "timeout_handle (resume_process_key now k p ic s) = timeout_handle s"
  "next_handle (resume_process_key now k p ic s) = next_handle s"
  "Combos_start_timepoint (resume_process_key now k p ic s) = Combos_start_timepoint s"
  "Combos_match_count (resume_process_key now k p ic s) = Combos_match_count s"
  "combos (resume_process_key now k p ic s) = combos s"
  "pending_combos (resume_process_key now k p ic s) = pending_combos s"
  by (simp_all add: resume_process_key_def)

lemma send_pending_combo_frame:
  "\<exists>ks. calls (send_pending_combo now bal i s) = calls s @ ks \<and> list_all is_resume ks"
  "timeout_handle (send_pending_combo now bal i s) = timeout_handle s"
  "next_handle (send_pending_combo now bal i s) = next_handle s"
  "Combos_start_timepoint (send_pending_combo now bal i s) = Combos_start_timepoint s"
  by (auto simp: send_pending_combo_def Let_def activate_def deactivate_def split: prod.splits)

lemma fold_send_frame:
  "(\<exists>ks. calls (fold (send_pending_combo now bal) is s) = calls s @ ks \<and> list_all is_resume ks) \<and>
   timeout_handle (fold (send_pending_combo now bal) is s) = timeout_handle s \<and>
   next_handle (fold (send_pending_combo now bal) is s) = next_handle s \<and>
   Combos_start_timepoint (fold (send_pending_combo now bal) is s) = Combos_start_timepoint s"
proof (induction "is" arbitrary: s)
  case Nil
  then show ?case by simp
next
  case (Cons i "is")
  from send_pending_combo_frame(1) [of now bal i s] obtain ks1 where
    k1: "calls (send_pending_combo now bal i s) = calls s @ ks1" "list_all is_resume ks1" by blast
  from Cons.IH [of "send_pending_combo now bal i s"] obtain ks2 where
    k2: "calls (fold (send_pending_combo now bal) is (send_pending_combo now bal i s))
         = calls (send_pending_combo now bal i s) @ ks2" "list_all is_resume ks2" by blast
  have "calls (fold (send_pending_combo now bal) (i # is) s) = calls s @ (ks1 @ ks2)"
    using k1 k2 by simp
  moreover have "list_all is_resume (ks1 @ ks2)" using k1 k2 by simp
  ultimately have "\<exists>ks. calls (fold (send_pending_combo now bal) (i # is) s) = calls s @ ks \<and> list_all is_resume ks"
    by blast
  then show ?case using Cons.IH [of "send_pending_combo now bal i s"]
    by (simp add: send_pending_combo_frame)
qed

lemma send_pending_combos_frame:
  "\<exists>ks. calls (send_pending_combos now s) = calls s @ ks \<and> list_all is_resume ks"
  "timeout_handle (send_pending_combos now s) = timeout_handle s"
  "next_handle (send_pending_combos now s) = next_handle s"
  "Combos_start_timepoint (send_pending_combos now s) = Combos_start_timepoint s"
  using fold_send_frame [of now "buffer_pressed_vs_released (key_buffer s)" "pending_combos s" s]
  by (auto simp: send_pending_combos_def Let_def)

lemma set_timeout_fields [simp]:
  "calls (set_timeout l s) = calls s @ [SetTimeout (next_handle s) l]"
  "timeout_handle (set_timeout l s) = Some (next_handle s)"
  "Combos_start_timepoint (set_timeout l s) = Combos_start_timepoint s"
  "Combos_match_count (set_timeout l s) = Combos_match_count s"
  "combos (set_timeout l s) = combos s"
  "pending_combos (set_timeout l s) = pending_combos s"
  by (simp_all add: set_timeout_def)

section \<open>The class attribute start_timepoint\<close>

lemma class_start_timepoint_kept:
  "all_establish (\<lambda>s. Combos_start_timepoint s = v) (\<lambda>s. Combos_start_timepoint s = v) n"
proof (rule engine_establishes)
  fix now k ic s e s' u l
  assume "Combos_start_timepoint s = v" "on_press_scan now k ic s = (e, s', u, l)"
  then show "Combos_start_timepoint s' = v" using on_press_scan_frame(4) by simp
next
  fix now k ic s e s' l p
  assume "Combos_start_timepoint s = v" "on_release_scan now k ic s = (e, s', l, p)"
  then show "Combos_start_timepoint s' = v" using on_release_scan_frame(4) by simp
next
  fix now k ic s s' u l b
  assume "Combos_start_timepoint s = v" "on_press_scan now k ic s = (None, s', u, l)"
  then show "Combos_start_timepoint (set_timeout l (s'\<lparr>key_buffer := b\<rparr>)) = v"
    using on_press_scan_frame(4) by simp
next
  fix now k ic s s' l p
  assume "Combos_start_timepoint s = v" "on_release_scan now k ic s = (None, s', l, p)"
  then show "Combos_start_timepoint (set_timeout l s') = v"
    using on_release_scan_frame(4) by simp
qed (simp_all add: send_pending_combos_frame)

lemma deliver_class_start_timepoint:
  assumes "deliver n e s = Some r"
  shows "Combos_start_timepoint (state_of r) = Combos_start_timepoint s"
proof (cases e)
  case (KeyEvent now k p ic)
  with assms have "process_key n now k p ic s = Some r" by simp
  moreover have "establishes (\<lambda>x. Combos_start_timepoint x = Combos_start_timepoint s)
      (\<lambda>x. Combos_start_timepoint x = Combos_start_timepoint s) (process_key n now k p ic)"
    using class_start_timepoint_kept [of "Combos_start_timepoint s" n]
    by (simp add: all_establish_def)
  ultimately show ?thesis by (auto simp: establishes_def)
next
  case (TimerFires now)
  have fb: "establishes (\<lambda>x. Combos_start_timepoint x = Combos_start_timepoint s)
      (\<lambda>x. Combos_start_timepoint x = Combos_start_timepoint s) (flush_buffers n now)"
    using class_start_timepoint_kept [of "Combos_start_timepoint s" n]
    by (simp add: all_establish_def)
  show ?thesis
  proof (cases "armed (calls s)")
    case Nil
    with assms TimerFires show ?thesis by auto
  next
    case (Cons h hs)
    with assms TimerFires
    have "flush_buffers n now (s\<lparr>calls := calls s @ [Fire h], start_timepoint := Some None\<rparr>) = Some r"
      by (simp add: on_timeout_def)
    from establishesD [OF fb _ this] show ?thesis by simp
  qed
qed

lemma run_class_start_timepoint:
  "run n es s = Some r \<Longrightarrow> Combos_start_timepoint (state_of r) = Combos_start_timepoint s"
proof (induction es arbitrary: s)
  case Nil
  then show ?case by auto
next
  case (Cons e es)
  from Cons.prems have "and_then (deliver n e s) (run n es) = Some r" by simp
  then show ?case
  proof (cases rule: and_then_cases)
    case (raise err s')
    with deliver_class_start_timepoint [OF raise(1)] show ?thesis by simp
  next
    case (return s')
    with deliver_class_start_timepoint [OF return(1)] Cons.IH [OF return(2)] show ?thesis by simp
  qed
qed

text \<open>
  C9, as stated. An engine over the chord has one combo MATCHING and observes
  \<open>match_count = 1\<close>. Constructing a second \<open>Combos\<close> instance assigns the class
  attribute \<open>Combos.match_count = 0\<close>, and the first instance now observes 0.
\<close>

theorem second_instance_zeroes_match_count:
  "Combos_match_count (booted [chord_AB]) = 1 \<and>
   matching_count (combos (booted [chord_AB])) = 1 \<and>
   Combos_match_count (seen_by (booted [chord_AB]) (Combos_init [] (booted [chord_AB])))
     \<noteq> Combos_match_count (booted [chord_AB])"
  by code_simp

text \<open>
  C9, amended. \<open>match_count\<close> is a class attribute shared by all instances:
  \<open>Combos.__init__\<close> of a second instance sets the count the first instance observes
  to 0. \<open>start_timepoint\<close> is per instance: what the first instance reads as
  \<open>self.start_timepoint\<close> is unchanged by constructing a second instance and by driving
  it with key events and timer expiries. (The class attribute \<open>Combos.start_timepoint\<close>
  is only ever assigned \<open>None\<close>, which is the hypothesis on the world \<open>s1\<close>.)
\<close>

theorem start_timepoint_per_instance_match_count_shared:
  assumes "Combos_start_timepoint s1 = None"
    and "run n es (Combos_init cs s1) = Some r"
  shows "Combos_match_count (seen_by s1 (Combos_init cs s1)) = 0 \<and>
         get_start_timepoint (seen_by s1 (Combos_init cs s1)) = get_start_timepoint s1 \<and>
         get_start_timepoint (seen_by s1 (state_of r)) = get_start_timepoint s1"
proof -
  have "Combos_start_timepoint (state_of r) = None"
    using run_class_start_timepoint [OF assms(2)] by (simp add: Combos_init_def)
  with assms(1) show ?thesis
    by (simp add: seen_by_def get_start_timepoint_def Combos_init_def split: option.splits)
qed

text \<open>
  The amended C9 at a concrete world: the first engine over the chord, booted; the second
  over the scenario registry, receiving a press of A.
\<close>

theorem start_timepoint_per_instance_witness:
  "Combos_start_timepoint (booted [chord_AB]) = None \<and>
   (\<exists>r. run 10 [KeyEvent 0 KC_A True (Some 0)] (Combos_init scenario_registry (booted [chord_AB])) = Some r \<and>
        Combos_match_count (seen_by (booted [chord_AB]) (Combos_init scenario_registry (booted [chord_AB]))) = 0 \<and>
        get_start_timepoint (seen_by (booted [chord_AB]) (state_of r)) = get_start_timepoint (booted [chord_AB]))"
proof -
  have h1: "Combos_start_timepoint (booted [chord_AB]) = None" by code_simp
  have "run 10 [KeyEvent 0 KC_A True (Some 0)] (Combos_init scenario_registry (booted [chord_AB])) \<noteq> None"
    by code_simp
  then obtain r where h2: "run 10 [KeyEvent 0 KC_A True (Some 0)] (Combos_init scenario_registry (booted [chord_AB])) = Some r"
    by blast
  from start_timepoint_per_instance_match_count_shared [OF h1 h2] h1 h2 show ?thesis by blast
qed

section \<open>Timers\<close>

lemma armed_append: "armed (cl @ ks) = fold timer_step ks (armed cl)"
  by (simp add: armed_def)

lemma fold_resume: "list_all is_resume ks \<Longrightarrow> fold timer_step ks a = a"
proof (induction ks arbitrary: a)
  case Nil
  then show ?case by simp
next
  case (Cons c ks)
  then show ?case by (cases c) simp_all
qed

lemma armed_append_resume: "list_all is_resume ks \<Longrightarrow> armed (cl @ ks) = armed cl"
  by (simp add: armed_append fold_resume)

lemma at_most_one_armed_iff:
  "at_most_one_armed cl \<longleftrightarrow> (\<forall>n \<le> length cl. length (armed (take n cl)) \<le> 1)"
  by (auto simp: at_most_one_armed_def list_all_iff less_Suc_eq_le)

lemma at_most_one_armed_snoc:
  "at_most_one_armed (cl @ [c]) \<longleftrightarrow> at_most_one_armed cl \<and> length (armed (cl @ [c])) \<le> 1"
proof
  assume a: "at_most_one_armed (cl @ [c])"
  have "at_most_one_armed cl" unfolding at_most_one_armed_iff
  proof (intro allI impI)
    fix n assume "n \<le> length cl"
    with a [unfolded at_most_one_armed_iff, rule_format, of n]
    show "length (armed (take n cl)) \<le> 1" by simp
  qed
  moreover from a [unfolded at_most_one_armed_iff, rule_format, of "Suc (length cl)"]
  have "length (armed (cl @ [c])) \<le> 1" by simp
  ultimately show "at_most_one_armed cl \<and> length (armed (cl @ [c])) \<le> 1" by simp
next
  assume b: "at_most_one_armed cl \<and> length (armed (cl @ [c])) \<le> 1"
  show "at_most_one_armed (cl @ [c])" unfolding at_most_one_armed_iff
  proof (intro allI impI)
    fix n assume n: "n \<le> length (cl @ [c])"
    show "length (armed (take n (cl @ [c]))) \<le> 1"
    proof (cases "n \<le> length cl")
      case True
      with b [unfolded at_most_one_armed_iff] show ?thesis by simp
    next
      case False
      with n have "n = Suc (length cl)" by simp
      with b show ?thesis by simp
    qed
  qed
qed

lemma at_most_one_armed_append_resume:
  "list_all is_resume ks \<Longrightarrow> at_most_one_armed (cl @ ks) \<longleftrightarrow> at_most_one_armed cl"
proof (induction ks rule: rev_induct)
  case Nil
  then show ?case by simp
next
  case (snoc c ks)
  then have r: "list_all is_resume ks" "is_resume c" by simp_all
  have "armed ((cl @ ks) @ [c]) = armed cl"
    using armed_append_resume [of "ks @ [c]" cl] snoc.prems by simp
  moreover have "length (armed cl) \<le> 1" if "at_most_one_armed cl"
    using that [unfolded at_most_one_armed_iff, rule_format, of "length cl"] by simp
  ultimately show ?case
    using at_most_one_armed_snoc [of "cl @ ks" c] snoc.IH [OF r(1)] by auto
qed

lemma timers_inv_cancel:
  assumes "timers_inv s"
  shows "timers_inv (cancel_stored_timeout s)" and "armed (calls (cancel_stored_timeout s)) = []"
proof -
  have one: "length (armed (calls s)) \<le> 1"
    using assms [unfolded timers_inv_def at_most_one_armed_iff] by auto
  show e: "armed (calls (cancel_stored_timeout s)) = []"
  proof (cases "timeout_handle s")
    case None
    with assms show ?thesis by (simp add: timers_inv_def cancel_stored_timeout_def)
  next
    case (Some h)
    with assms have "set (armed (calls s)) \<subseteq> {h}" by (simp add: timers_inv_def)
    then have "removeAll h (armed (calls s)) = []"
      by (metis removeAll_id remove_code(1) set_removeAll Diff_eq_empty_iff set_empty)
    with Some show ?thesis by (simp add: cancel_stored_timeout_def armed_append)
  qed
  show "timers_inv (cancel_stored_timeout s)"
  proof (cases "timeout_handle s")
    case None
    with assms show ?thesis by (simp add: cancel_stored_timeout_def)
  next
    case (Some h)
    have "calls (cancel_stored_timeout s) = calls s @ [CancelTimeout h]"
      using Some by (simp add: cancel_stored_timeout_def)
    with e assms show ?thesis
      by (simp add: timers_inv_def at_most_one_armed_snoc)
  qed
qed

lemma timers_inv_append_resume:
  assumes "timers_inv s" "calls s' = calls s @ ks" "list_all is_resume ks"
    "timeout_handle s' = timeout_handle s"
  shows "timers_inv s'"
  using assms by (simp add: timers_inv_def at_most_one_armed_append_resume armed_append_resume)

lemma timers_inv_same:
  assumes "timers_inv s" "calls s' = calls s" "timeout_handle s' = timeout_handle s"
  shows "timers_inv s'"
  using assms by (simp add: timers_inv_def)

lemma timers_inv_set_timeout:
  assumes "timers_inv s" "armed (calls s) = []"
  shows "timers_inv (set_timeout l s)"
  using assms by (simp add: timers_inv_def at_most_one_armed_snoc armed_append)

lemma timers_inv_press_scan:
  assumes "timers_inv s" "on_press_scan now k ic s = (e, s', u, l)"
  shows "timers_inv s'" and "armed (calls s') = []"
  using timers_inv_cancel [OF assms(1)] on_press_scan_frame [OF assms(2)]
  by (auto simp: timers_inv_def)

lemma timers_inv_release_scan:
  assumes "timers_inv s" "on_release_scan now k ic s = (e, s', l, p)"
  shows "timers_inv s'" and "armed (calls s') = []"
proof -
  from on_release_scan_frame [OF assms(2)] obtain ks where
    ks: "calls s' = calls (cancel_stored_timeout s) @ ks" "list_all is_resume ks"
    and h: "timeout_handle s' = timeout_handle s" by blast
  from timers_inv_append_resume [OF timers_inv_cancel(1) [OF assms(1)] ks] h
  show "timers_inv s'" by simp
  from ks timers_inv_cancel(2) [OF assms(1)] show "armed (calls s') = []"
    by (simp add: armed_append_resume)
qed

lemma timers_kept: "all_establish timers_inv timers_inv n"
proof (rule engine_establishes)
  fix now k ic s e s' u l
  assume "timers_inv s" "on_press_scan now k ic s = (e, s', u, l)"
  then show "timers_inv s'" by (rule timers_inv_press_scan)
next
  fix now k ic s e s' l p
  assume "timers_inv s" "on_release_scan now k ic s = (e, s', l, p)"
  then show "timers_inv s'" by (rule timers_inv_release_scan)
next
  fix now k p ic s assume a: "timers_inv s"
  show "timers_inv (resume_process_key now k p ic s)"
    by (rule timers_inv_append_resume [OF a, where ks = "[Resume now k p ic]"]) simp_all
next
  fix s assume "timers_inv s"
  then show "timers_inv (reset_combos s)" by (rule timers_inv_same) simp_all
next
  fix s b assume "timers_inv s"
  then show "timers_inv (s\<lparr>key_buffer := b\<rparr>)" by (rule timers_inv_same) simp_all
next
  fix s v assume "timers_inv s"
  then show "timers_inv (s\<lparr>start_timepoint := v\<rparr>)" by (rule timers_inv_same) simp_all
next
  fix now s assume a: "timers_inv s"
  from send_pending_combos_frame(1) [of now s] obtain ks where
    "calls (send_pending_combos now s) = calls s @ ks" "list_all is_resume ks" by blast
  from timers_inv_append_resume [OF a this] show "timers_inv (send_pending_combos now s)"
    by (simp add: send_pending_combos_frame)
next
  fix now k ic s s' u l b
  assume a: "timers_inv s" "on_press_scan now k ic s = (None, s', u, l)"
  have "timers_inv (s'\<lparr>key_buffer := b\<rparr>)"
    using timers_inv_press_scan(1) [OF a] by (rule timers_inv_same) simp_all
  moreover have "armed (calls (s'\<lparr>key_buffer := b\<rparr>)) = []"
    using timers_inv_press_scan(2) [OF a] by simp
  ultimately show "timers_inv (set_timeout l (s'\<lparr>key_buffer := b\<rparr>))"
    by (rule timers_inv_set_timeout)
next
  fix now k ic s s' l p
  assume a: "timers_inv s" "on_release_scan now k ic s = (None, s', l, p)"
  from timers_inv_release_scan [OF a] show "timers_inv (set_timeout l s')"
    by (rule timers_inv_set_timeout)
qed simp

lemma handler_cancels_at_entry:
  "all_establish
     (\<lambda>x. (calls x = t0 \<and> timeout_handle x = Some h) \<or> prefix (t0 @ [CancelTimeout h]) (calls x))
     (\<lambda>x. prefix (t0 @ [CancelTimeout h]) (calls x)) n"
proof (rule engine_establishes)
  fix now k ic s e s' u l
  assume "(calls (s::state) = t0 \<and> timeout_handle s = Some h) \<or> prefix (t0 @ [CancelTimeout h]) (calls s)"
    and sc: "on_press_scan now k ic s = (e, s', u, l)"
  then have "prefix (t0 @ [CancelTimeout h]) (calls (cancel_stored_timeout s))"
    by (auto simp: cancel_stored_timeout_def prefix_def split: option.splits)
  with on_press_scan_frame(1) [OF sc] show "prefix (t0 @ [CancelTimeout h]) (calls s')" by simp
next
  fix now k ic s e s' l p
  assume "(calls (s::state) = t0 \<and> timeout_handle s = Some h) \<or> prefix (t0 @ [CancelTimeout h]) (calls s)"
    and sc: "on_release_scan now k ic s = (e, s', l, p)"
  then have "prefix (t0 @ [CancelTimeout h]) (calls (cancel_stored_timeout s))"
    by (auto simp: cancel_stored_timeout_def prefix_def split: option.splits)
  with on_release_scan_frame(1) [OF sc] show "prefix (t0 @ [CancelTimeout h]) (calls s')"
    by (auto simp: prefix_def)
next
  fix now and s :: state assume "prefix (t0 @ [CancelTimeout h]) (calls s)"
  with send_pending_combos_frame(1) [of now s]
  show "prefix (t0 @ [CancelTimeout h]) (calls (send_pending_combos now s))"
    by (auto simp: prefix_def)
next
  fix now k ic s s' u l b
  assume "(calls (s::state) = t0 \<and> timeout_handle s = Some h) \<or> prefix (t0 @ [CancelTimeout h]) (calls s)"
    and sc: "on_press_scan now k ic s = (None, s', u, l)"
  then have "prefix (t0 @ [CancelTimeout h]) (calls (cancel_stored_timeout s))"
    by (auto simp: cancel_stored_timeout_def prefix_def split: option.splits)
  with on_press_scan_frame(1) [OF sc]
  show "prefix (t0 @ [CancelTimeout h]) (calls (set_timeout l (s'\<lparr>key_buffer := b\<rparr>)))"
    by (auto simp: prefix_def)
next
  fix now k ic s s' l p
  assume "(calls (s::state) = t0 \<and> timeout_handle s = Some h) \<or> prefix (t0 @ [CancelTimeout h]) (calls s)"
    and sc: "on_release_scan now k ic s = (None, s', l, p)"
  then have "prefix (t0 @ [CancelTimeout h]) (calls (cancel_stored_timeout s))"
    by (auto simp: cancel_stored_timeout_def prefix_def split: option.splits)
  with on_release_scan_frame(1) [OF sc]
  show "prefix (t0 @ [CancelTimeout h]) (calls (set_timeout l s'))"
    by (auto simp: prefix_def)
qed (auto simp: prefix_def)


lemma on_press_cancels_at_entry:
  assumes "timeout_handle s = Some h" "on_press n now k ic s = Some r"
  shows "\<exists>rest. calls (state_of r) = calls s @ CancelTimeout h # rest"
proof -
  have "establishes
     (\<lambda>x. (calls x = calls s \<and> timeout_handle x = Some h) \<or> prefix (calls s @ [CancelTimeout h]) (calls x))
     (\<lambda>x. prefix (calls s @ [CancelTimeout h]) (calls x)) (on_press n now k ic)"
    using handler_cancels_at_entry [of "calls s" h n] by (simp add: all_establish_def)
  from establishesD [OF this _ assms(2)] assms(1)
  have "prefix (calls s @ [CancelTimeout h]) (calls (state_of r))" by simp
  then show ?thesis by (auto simp: prefix_def)
qed

lemma on_release_cancels_at_entry:
  assumes "timeout_handle s = Some h" "on_release n now k ic s = Some r"
  shows "\<exists>rest. calls (state_of r) = calls s @ CancelTimeout h # rest"
proof -
  have "establishes
     (\<lambda>x. (calls x = calls s \<and> timeout_handle x = Some h) \<or> prefix (calls s @ [CancelTimeout h]) (calls x))
     (\<lambda>x. prefix (calls s @ [CancelTimeout h]) (calls x)) (on_release n now k ic)"
    using handler_cancels_at_entry [of "calls s" h n] by (simp add: all_establish_def)
  from establishesD [OF this _ assms(2)] assms(1)
  have "prefix (calls s @ [CancelTimeout h]) (calls (state_of r))" by simp
  then show ?thesis by (auto simp: prefix_def)
qed

text \<open>
  C7. In every reachable state the log of host calls never had more than one timer armed
  at a time (after any of its prefixes). Each of \<open>on_press\<close> and \<open>on_release\<close>, called
  in such a state with a timer armed, makes \<open>cancel_timeout\<close> on that timer its first host
  call, so that none is armed when it goes on to arm a new one or to leave the engine
  without one; and the log it leaves behind again never had two timers armed at a time.
\<close>

theorem at_most_one_timer_armed:
  assumes "reachable s"
  shows "at_most_one_armed (calls s) \<and> armed (calls (cancel_stored_timeout s)) = [] \<and>
         (\<forall>n now k ic r h. h \<in> set (armed (calls s)) \<longrightarrow>
            (on_press n now k ic s = Some r \<longrightarrow>
               at_most_one_armed (calls (state_of r)) \<and>
               (\<exists>rest. calls (state_of r) = calls s @ CancelTimeout h # rest)) \<and>
            (on_release n now k ic s = Some r \<longrightarrow>
               at_most_one_armed (calls (state_of r)) \<and>
               (\<exists>rest. calls (state_of r) = calls s @ CancelTimeout h # rest)))"
proof -
  from assms have "timers_inv s"
  proof (induction rule: reachable.induct)
    case (start cs)
    show ?case
      by (simp add: timers_inv_def Combos_init_def module_loaded_def at_most_one_armed_def armed_def)
  next
    case (bootup s)
    from bootup.IH show ?case unfolding during_bootup_def by (rule timers_inv_same) simp_all
  next
    case (key s n now k is_pressed ic r)
    have "establishes timers_inv timers_inv (process_key n now k is_pressed ic)"
      using timers_kept [of n] by (simp add: all_establish_def)
    from establishesD [OF this key.IH key.hyps(2)] show ?case .
  next
    case (callback s n now r)
    have fb: "establishes timers_inv timers_inv (flush_buffers n now)"
      using timers_kept [of n] by (simp add: all_establish_def)
    have "timers_inv (s\<lparr>start_timepoint := Some None\<rparr>)"
      using callback.IH by (rule timers_inv_same) simp_all
    from establishesD [OF fb this] callback.hyps(2) show ?case by (simp add: on_timeout_def)
  next
    case (expiry s h)
    have one: "length (armed (calls s)) \<le> 1"
      using expiry.IH [unfolded timers_inv_def at_most_one_armed_iff] by auto
    with expiry.hyps(2) have "armed (calls s) = [h]"
      by (cases "armed (calls s)") auto
    then have "armed (calls s @ [Fire h]) = []" by (simp add: armed_append)
    with expiry.IH show ?case by (simp add: timers_inv_def at_most_one_armed_snoc)
  qed
  then have inv: "timers_inv s" .
  have stored: "timeout_handle s = Some h" if "h \<in> set (armed (calls s))" for h
    using inv that by (auto simp: timers_inv_def)
  have press: "at_most_one_armed (calls (state_of r)) \<and>
      (\<exists>rest. calls (state_of r) = calls s @ CancelTimeout h # rest)"
    if "h \<in> set (armed (calls s))" "on_press n now k ic s = Some r" for n now k ic r h
  proof -
    have "establishes timers_inv timers_inv (on_press n now k ic)"
      using timers_kept [of n] by (simp add: all_establish_def)
    from establishesD [OF this inv that(2)] have "at_most_one_armed (calls (state_of r))"
      by (simp add: timers_inv_def)
    with on_press_cancels_at_entry [OF stored [OF that(1)] that(2)] show ?thesis by simp
  qed
  have release: "at_most_one_armed (calls (state_of r)) \<and>
      (\<exists>rest. calls (state_of r) = calls s @ CancelTimeout h # rest)"
    if "h \<in> set (armed (calls s))" "on_release n now k ic s = Some r" for n now k ic r h
  proof -
    have "establishes timers_inv timers_inv (on_release n now k ic)"
      using timers_kept [of n] by (simp add: all_establish_def)
    from establishesD [OF this inv that(2)] have "at_most_one_armed (calls (state_of r))"
      by (simp add: timers_inv_def)
    with on_release_cancels_at_entry [OF stored [OF that(1)] that(2)] show ?thesis by simp
  qed
  from inv have "at_most_one_armed (calls s)" by (simp add: timers_inv_def)
  moreover have "armed (calls (cancel_stored_timeout s)) = []"
    using timers_inv_cancel(2) [OF inv] .
  ultimately show ?thesis using press release by blast
qed

lemma reachable_run: "reachable s \<Longrightarrow> run n es s = Some r \<Longrightarrow> reachable (state_of r)"
proof (induction es arbitrary: s)
  case Nil
  then show ?case by auto
next
  case (Cons e es)
  have d: "reachable (state_of r')" if "deliver n e s = Some r'" for r'
  proof (cases e)
    case (KeyEvent now k p ic)
    with that Cons.prems(1) show ?thesis by (auto intro: reachable.key)
  next
    case (TimerFires now)
    show ?thesis
    proof (cases "armed (calls s)")
      case Nil
      with that TimerFires Cons.prems(1) show ?thesis by auto
    next
      case (Cons h hs)
      then have "reachable (s\<lparr>calls := calls s @ [Fire h]\<rparr>)"
        using \<open>reachable s\<close> by (auto intro: reachable.expiry)
      moreover from that TimerFires Cons
      have "on_timeout n now (s\<lparr>calls := calls s @ [Fire h]\<rparr>) = Some r'" by simp
      ultimately show ?thesis by (rule reachable.callback)
    qed
  qed
  from Cons.prems(2) have "and_then (deliver n e s) (run n es) = Some r" by simp
  then show ?case
  proof (cases rule: and_then_cases)
    case (raise err s')
    with d [OF raise(1)] show ?thesis by simp
  next
    case (return s')
    from d [OF return(1)] have "reachable s'" by simp
    from Cons.IH [OF this return(2)] show ?thesis .
  qed
qed

lemma reachable_state_after: "reachable s \<Longrightarrow> reachable (state_after es s)"
  by (auto simp: state_after_def split: option.splits intro: reachable_run)

lemma reachable_booted_scenario: "reachable (booted scenario_registry)"
proof -
  have "list_all constructed scenario_registry" by code_simp
  then have "reachable (Combos_init scenario_registry module_loaded)" by (rule reachable.start)
  then show ?thesis unfolding booted_def by (rule reachable.bootup)
qed

text \<open>
  C7 at a concrete reachable state: the scenario engine after a press of A, with timer 1
  armed; the handlers called there are \<open>on_release\<close> for A at 20 and \<open>on_press\<close> for
  C at 5.
\<close>

theorem at_most_one_timer_armed_witness:
  "reachable (state_after [KeyEvent 0 KC_A True (Some 0)] (booted scenario_registry)) \<and>
   armed (calls (state_after [KeyEvent 0 KC_A True (Some 0)] (booted scenario_registry))) = [1] \<and>
   at_most_one_armed (calls (state_after [KeyEvent 0 KC_A True (Some 0)] (booted scenario_registry))) \<and>
   armed (calls (cancel_stored_timeout
       (state_after [KeyEvent 0 KC_A True (Some 0)] (booted scenario_registry)))) = [] \<and>
   on_release 10 20 KC_A (Some 0)
       (state_after [KeyEvent 0 KC_A True (Some 0)] (booted scenario_registry)) \<noteq> None \<and>
   (\<exists>rest. calls (state_of (the (on_release 10 20 KC_A (Some 0)
                (state_after [KeyEvent 0 KC_A True (Some 0)] (booted scenario_registry)))))
          = calls (state_after [KeyEvent 0 KC_A True (Some 0)] (booted scenario_registry))
            @ CancelTimeout 1 # rest) \<and>
   on_press 10 5 KC_C (Some 2)
       (state_after [KeyEvent 0 KC_A True (Some 0)] (booted scenario_registry)) \<noteq> None \<and>
   (\<exists>rest. calls (state_of (the (on_press 10 5 KC_C (Some 2)
                (state_after [KeyEvent 0 KC_A True (Some 0)] (booted scenario_registry)))))
          = calls (state_after [KeyEvent 0 KC_A True (Some 0)] (booted scenario_registry))
            @ CancelTimeout 1 # rest) \<and>
   take 2 (calls (state_of (the (on_release 10 20 KC_A (Some 0)
       (state_after [KeyEvent 0 KC_A True (Some 0)] (booted scenario_registry))))))
     = [SetTimeout 1 1000, CancelTimeout 1] \<and>
   take 2 (calls (state_of (the (on_press 10 5 KC_C (Some 2)
       (state_after [KeyEvent 0 KC_A True (Some 0)] (booted scenario_registry))))))
     = [SetTimeout 1 1000, CancelTimeout 1]"
proof -
  let ?s = "state_after [KeyEvent 0 KC_A True (Some 0)] (booted scenario_registry)"
  have r: "reachable ?s"
    using reachable_booted_scenario by (rule reachable_state_after)
  have a: "armed (calls ?s) = [1]" by code_simp
  then have h: "1 \<in> set (armed (calls ?s))" by simp
  have n1: "on_release 10 20 KC_A (Some 0) ?s \<noteq> None" by code_simp
  then have e1: "on_release 10 20 KC_A (Some 0) ?s = Some (the (on_release 10 20 KC_A (Some 0) ?s))"
    by simp
  have n2: "on_press 10 5 KC_C (Some 2) ?s \<noteq> None" by code_simp
  then have e2: "on_press 10 5 KC_C (Some 2) ?s = Some (the (on_press 10 5 KC_C (Some 2) ?s))"
    by simp
  note t = at_most_one_timer_armed [OF r]
  from t have t1: "at_most_one_armed (calls ?s)" "armed (calls (cancel_stored_timeout ?s)) = []"
    by simp_all
  from t h e1 have t2: "\<exists>rest. calls (state_of (the (on_release 10 20 KC_A (Some 0) ?s)))
      = calls ?s @ CancelTimeout 1 # rest" by blast
  from t h e2 have t3: "\<exists>rest. calls (state_of (the (on_press 10 5 KC_C (Some 2) ?s)))
      = calls ?s @ CancelTimeout 1 # rest" by blast
  have v1: "take 2 (calls (state_of (the (on_release 10 20 KC_A (Some 0) ?s))))
      = [SetTimeout 1 1000, CancelTimeout 1]" by code_simp
  have v2: "take 2 (calls (state_of (the (on_press 10 5 KC_C (Some 2) ?s))))
      = [SetTimeout 1 1000, CancelTimeout 1]" by code_simp
  from r a t1 n1 t2 n2 t3 v1 v2 show ?thesis by simp
qed

section \<open>The stored handle is cancelled first\<close>















section \<open>The counter of MATCHING combos\<close>

lemma matching_count_Cons: "matching_count (c # cs) = matching_count [c] + matching_count cs"
  by (simp add: matching_count_def)

lemma matching_count_Nil [simp]: "matching_count [] = 0"
  by (simp add: matching_count_def)

lemma matching_count_update:
  "i < length cs \<Longrightarrow>
     matching_count (cs[i := c']) = matching_count cs - matching_count [cs ! i] + matching_count [c']"
proof (induction cs arbitrary: i)
  case Nil
  then show ?case by simp
next
  case (Cons c cs)
  show ?case
  proof (cases i)
    case 0
    then show ?thesis
      using matching_count_Cons [of c' cs] matching_count_Cons [of c cs] by simp
  next
    case (Suc j)
    with Cons.prems have "j < length cs" by simp
    from Cons.IH [OF this] Suc show ?thesis
      using matching_count_Cons [of c "cs[j := c']"] matching_count_Cons [of c cs] by simp
  qed
qed

lemma set_state_count:
  "set_state st (c, mc) = (c', mc') \<Longrightarrow> mc' - matching_count [c'] = mc - matching_count [c]"
  by (auto simp: set_state_def Let_def matching_count_def split: if_splits)

lemma reset_count:
  "reset (c, mc) = (c', mc') \<Longrightarrow> mc' - matching_count [c'] = mc - matching_count [c]"
  by (auto simp: reset_def set_state_def Let_def matching_count_def split: if_splits)

lemma matches_cstate: "matches c k ic = Inr (m, c1) \<Longrightarrow> cstate c1 = cstate c"
  by (auto simp: matches_def split: combo_kind.splits if_splits list.splits option.splits)

lemma unpress_cstate: "unpress c k ic = Inr c1 \<Longrightarrow> cstate c1 = cstate c"
  by (auto simp: unpress_def split: option.splits sum.splits)

lemma press_combo_count:
  assumes "press_combo k ic dl ds i (c, mc) (pend, u, l) = Inr ((c', mc'), (pend', u', l'))"
  shows "mc' - matching_count [c'] = mc - matching_count [c]"
    and "set pend' \<subseteq> insert i (set pend)"
proof -
  show "mc' - matching_count [c'] = mc - matching_count [c]"
  proof (cases "cstate c \<noteq> MATCHING")
    case True
    with assms show ?thesis by (simp add: press_combo_def)
  next
    case False
    then obtain m c1 where m: "matches c k ic = Inr (m, c1)"
      using assms by (auto simp: press_combo_def split: sum.splits)
    have c1: "matching_count [c1] = matching_count [c]"
      using matches_cstate [OF m] by (simp add: matching_count_def)
    show ?thesis
    proof (cases "m \<and> ((per_key_timeout c1 \<and> dl < of_int (timeout c1))
                      \<or> (\<not> per_key_timeout c1 \<and> ds < of_int (timeout c1)))")
      case True
      with assms False m have "c' = c1" "mc' = mc"
        by (auto simp: press_combo_def split: if_splits)
      with c1 show ?thesis by simp
    next
      case nm: False
      obtain c2 mc2 where r: "reset (c1, mc) = (c2, mc2)" by fastforce
      from assms False m nm r have "set_state RESET (c2, mc2) = (c', mc')"
        by (auto simp: press_combo_def split: if_splits)
      from set_state_count [OF this] reset_count [OF r] c1 show ?thesis by simp
    qed
  qed
  show "set pend' \<subseteq> insert i (set pend)"
    using assms
    by (auto simp: press_combo_def split: if_splits sum.splits prod.splits)
qed

lemma press_loop_count:
  "press_loop k ic dl ds i cs mc (pend, u, l) = (e, cs', mc', (pend', u', l'))
   \<Longrightarrow> mc' - matching_count cs' = mc - matching_count cs \<and> length cs' = length cs \<and>
       (\<forall>j \<in> set pend'. j \<in> set pend \<or> (i \<le> j \<and> j < i + length cs))"
proof (induction cs arbitrary: i mc pend u l e cs' mc' pend' u' l')
  case Nil
  then show ?case by simp
next
  case (Cons c cs)
  show ?case
  proof (cases "press_combo k ic dl ds i (c, mc) (pend, u, l)")
    case (Inl err)
    with Cons.prems show ?thesis by auto
  next
    case (Inr res)
    obtain c1 mc1 pend1 u1 l1 where res: "res = ((c1, mc1), (pend1, u1, l1))"
      by (metis prod_cases3 surj_pair)
    note b = Inr [unfolded res]
    obtain e2 cs2 mc2 pend2 u2 l2 where
      lp: "press_loop k ic dl ds (Suc i) cs mc1 (pend1, u1, l1) = (e2, cs2, mc2, (pend2, u2, l2))"
      by (metis prod_cases3 surj_pair)
    from Cons.prems b lp have eq: "cs' = c1 # cs2" "mc' = mc2" "pend' = pend2" by simp_all
    from Cons.IH [OF lp] have ih: "mc2 - matching_count cs2 = mc1 - matching_count cs"
      "length cs2 = length cs"
      "\<forall>j \<in> set pend2. j \<in> set pend1 \<or> (Suc i \<le> j \<and> j < Suc i + length cs)" by simp_all
    from press_combo_count [OF b] have pc: "mc1 - matching_count [c1] = mc - matching_count [c]"
      "set pend1 \<subseteq> insert i (set pend)" by simp_all
    have "mc' - matching_count cs' = mc - matching_count (c # cs)"
      using eq ih(1) pc(1) matching_count_Cons [of c1 cs2] matching_count_Cons [of c cs] by simp
    moreover have "length cs' = length (c # cs)" using eq ih(2) by simp
    moreover have "\<forall>j \<in> set pend'. j \<in> set pend \<or> (i \<le> j \<and> j < i + length (c # cs))"
      using eq ih(3) pc(2) by fastforce
    ultimately show ?thesis by blast
  qed
qed

lemma match_count_inv_press_scan:
  assumes "match_count_inv s" "on_press_scan now k ic s = (e, s', u, l)"
  shows "match_count_inv s'"
proof -
  let ?s1 = "cancel_stored_timeout s"
  let ?s2 = "if get_start_timepoint ?s1 = None
             then ?s1\<lparr>start_timepoint := Some (Some now)\<rparr> else ?s1"
  have c2: "combos ?s2 = combos s" "Combos_match_count ?s2 = Combos_match_count s" by simp_all
  from assms(2) obtain dl ds e1 cs mc pend u1 l1 where
    lp: "press_loop k ic dl ds 0 (combos s) (Combos_match_count s) ([], 0, 0) = (e1, cs, mc, (pend, u1, l1))"
    and s': "combos s' = cs" "Combos_match_count s' = mc" "pending_combos s' = pend"
    unfolding on_press_scan_def Let_def c2
    by (auto split: prod.splits)
  from press_loop_count [OF lp] assms(1) s' show ?thesis
    by (auto simp: match_count_inv_def list_all_iff)
qed

lemma release_combo_count:
  assumes "release_combo now k ic c (mc, cl, v) = (e, c', mc', cl', v')"
  shows "mc' - matching_count [c'] = mc - matching_count [c]"
proof (cases "uses_match c k ic")
  case (Inl err)
  with assms show ?thesis by (auto simp: release_combo_def split: prod.splits)
next
  case (Inr b)
  show ?thesis
  proof (cases b)
    case False
    with assms Inr show ?thesis by (auto simp: release_combo_def split: prod.splits)
  next
    case True
    obtain c1 mc1 where f: "(if cstate c = ACTIVE
        then (if fast_reset c then reset (c, mc) else set_state MATCHING (c, mc))
        else (c, mc)) = (c1, mc1)" by fastforce
    have c1: "mc1 - matching_count [c1] = mc - matching_count [c]"
      using f reset_count set_state_count by (auto split: if_splits)
    obtain c2 mc2 where r: "reset (c1, mc1) = (c2, mc2)" by fastforce
    have "(c' = c1 \<and> mc' = mc1) \<or> (\<exists>cu. unpress c1 k ic = Inr cu \<and> c' = cu \<and> mc' = mc1)
          \<or> (c' = c2 \<and> mc' = mc2)"
      using assms Inr True f r
      by (auto simp: release_combo_def split: prod.splits if_splits sum.splits)
    then show ?thesis
    proof (elim disjE exE conjE)
      assume "c' = c1" "mc' = mc1" with c1 show ?thesis by simp
    next
      fix cu assume u: "unpress c1 k ic = Inr cu" "c' = cu" "mc' = mc1"
      have "matching_count [cu] = matching_count [c1]"
        using unpress_cstate [OF u(1)] by (simp add: matching_count_def)
      with u c1 show ?thesis by simp
    next
      assume "c' = c2" "mc' = mc2" with reset_count [OF r] c1 show ?thesis by simp
    qed
  qed
qed

lemma release_loop_count:
  "release_loop now k ic cs (mc, cl, v) = (e, cs', mc', cl', v')
   \<Longrightarrow> mc' - matching_count cs' = mc - matching_count cs \<and> length cs' = length cs"
proof (induction cs arbitrary: mc cl v e cs' mc' cl' v')
  case Nil
  then show ?case by simp
next
  case (Cons c cs)
  obtain e1 c1 mc1 cl1 v1 where b: "release_combo now k ic c (mc, cl, v) = (e1, c1, mc1, cl1, v1)"
    by (metis prod_cases5)
  note pc = release_combo_count [OF b]
  show ?case
  proof (cases e1)
    case (Some err)
    with Cons.prems b have "cs' = c1 # cs" "mc' = mc1" by simp_all
    with pc show ?thesis
      using matching_count_Cons [of c1 cs] matching_count_Cons [of c cs] by simp
  next
    case None
    obtain e2 cs2 mc2 cl2 v2 where l: "release_loop now k ic cs (mc1, cl1, v1) = (e2, cs2, mc2, cl2, v2)"
      by (metis prod_cases5)
    from Cons.prems b None l have "cs' = c1 # cs2" "mc' = mc2" by simp_all
    with pc Cons.IH [OF l] show ?thesis
      using matching_count_Cons [of c1 cs2] matching_count_Cons [of c cs] by simp
  qed
qed

lemma match_count_inv_release_scan:
  assumes "match_count_inv s" "on_release_scan now k ic s = (e, s', l, p)"
  shows "match_count_inv s'"
proof -
  obtain e1 cs mc cl lt pr br where
    lp: "release_loop now k ic (combos (cancel_stored_timeout s))
          (Combos_match_count (cancel_stored_timeout s), calls (cancel_stored_timeout s), (0, True, False))
        = (e1, cs, mc, cl, (lt, pr, br))"
    by (metis prod_cases5 prod_cases3)
  from assms(2) lp have s': "combos s' = cs" "Combos_match_count s' = mc"
    "pending_combos s' = pending_combos s"
    by (auto simp: on_release_scan_def Let_def split: option.splits if_splits)
  from release_loop_count [OF lp] assms(1) s' show ?thesis
    by (simp add: match_count_inv_def)
qed

lemma reset_all_count:
  "reset_all cs mc = (cs', mc')
   \<Longrightarrow> mc' - matching_count cs' = mc - matching_count cs \<and> length cs' = length cs"
proof (induction cs arbitrary: mc cs' mc')
  case Nil
  then show ?case by simp
next
  case (Cons c cs)
  obtain c1 mc1 where h: "(if cstate c \<noteq> ACTIVE then reset (c, mc) else (c, mc)) = (c1, mc1)"
    by fastforce
  obtain cs2 mc2 where t: "reset_all cs mc1 = (cs2, mc2)" by fastforce
  from Cons.prems h t have eq: "cs' = c1 # cs2" "mc' = mc2" by auto
  have "mc1 - matching_count [c1] = mc - matching_count [c]"
    using h reset_count by (auto split: if_splits)
  with Cons.IH [OF t] eq show ?case
    using matching_count_Cons [of c1 cs2] matching_count_Cons [of c cs] by simp
qed

lemma match_count_inv_reset_combos: "match_count_inv s \<Longrightarrow> match_count_inv (reset_combos s)"
proof -
  assume a: "match_count_inv s"
  obtain cs mc where r: "reset_all (combos s) (Combos_match_count s) = (cs, mc)" by fastforce
  have f: "combos (reset_combos s) = cs" "Combos_match_count (reset_combos s) = mc"
    by (simp_all add: reset_combos_def r)
  from reset_all_count [OF r] a show ?thesis
    unfolding match_count_inv_def f by simp
qed

lemma send_pending_combo_count:
  assumes "i < length (combos s)"
  shows "Combos_match_count (send_pending_combo now bal i s)
           - matching_count (combos (send_pending_combo now bal i s))
         = Combos_match_count s - matching_count (combos s)"
    and "length (combos (send_pending_combo now bal i s)) = length (combos s)"
proof -
  let ?c = "combos s ! i"
  obtain c1 mc1 where a: "set_state ACTIVE (?c, Combos_match_count s) = (c1, mc1)" by fastforce
  obtain c2 mc2 where b: "set_state RESET (c1, mc1) = (c2, mc2)" by fastforce
  note ca = set_state_count [OF a] and cb = set_state_count [OF b]
  show "Combos_match_count (send_pending_combo now bal i s)
           - matching_count (combos (send_pending_combo now bal i s))
         = Combos_match_count s - matching_count (combos s)"
    using a b ca cb matching_count_update [OF assms]
    by (simp add: send_pending_combo_def Let_def)
  show "length (combos (send_pending_combo now bal i s)) = length (combos s)"
    using a b by (simp add: send_pending_combo_def Let_def)
qed

lemma fold_send_count:
  "list_all (\<lambda>i. i < length (combos s)) is \<Longrightarrow>
   Combos_match_count (fold (send_pending_combo now bal) is s)
     - matching_count (combos (fold (send_pending_combo now bal) is s))
   = Combos_match_count s - matching_count (combos s) \<and>
   length (combos (fold (send_pending_combo now bal) is s)) = length (combos s)"
proof (induction "is" arbitrary: s)
  case Nil
  then show ?case by simp
next
  case (Cons i "is")
  then have i: "i < length (combos s)" and r: "list_all (\<lambda>i. i < length (combos s)) is"
    by simp_all
  note sc = send_pending_combo_count [OF i, of now bal]
  from r sc(2) have "list_all (\<lambda>j. j < length (combos (send_pending_combo now bal i s))) is"
    by simp
  from Cons.IH [OF this] sc show ?case by simp
qed

lemma match_count_inv_send: "match_count_inv s \<Longrightarrow> match_count_inv (send_pending_combos now s)"
proof -
  assume a: "match_count_inv s"
  let ?s1 = "fold (send_pending_combo now (buffer_pressed_vs_released (key_buffer s))) (pending_combos s) s"
  from a have "list_all (\<lambda>i. i < length (combos s)) (pending_combos s)"
    by (simp add: match_count_inv_def)
  from fold_send_count [OF this, of now "buffer_pressed_vs_released (key_buffer s)"] a
  have "match_count_inv (?s1\<lparr>pending_combos := [], key_buffer := []\<rparr>)"
    by (simp add: match_count_inv_def)
  from match_count_inv_reset_combos [OF this] show ?thesis
    by (simp add: send_pending_combos_def Let_def match_count_inv_def)
qed

lemma match_count_kept: "all_establish match_count_inv match_count_inv n"
proof (rule engine_establishes)
  fix now k ic s e s' u l
  assume "match_count_inv s" "on_press_scan now k ic s = (e, s', u, l)"
  then show "match_count_inv s'" by (rule match_count_inv_press_scan)
next
  fix now k ic s e s' l p
  assume "match_count_inv s" "on_release_scan now k ic s = (e, s', l, p)"
  then show "match_count_inv s'" by (rule match_count_inv_release_scan)
next
  fix s assume "match_count_inv s"
  then show "match_count_inv (reset_combos s)" by (rule match_count_inv_reset_combos)
next
  fix now s assume "match_count_inv s"
  then show "match_count_inv (send_pending_combos now s)" by (rule match_count_inv_send)
next
  fix now k ic s s' u l b
  assume "match_count_inv s" "on_press_scan now k ic s = (None, s', u, l)"
  from match_count_inv_press_scan [OF this]
  show "match_count_inv (set_timeout l (s'\<lparr>key_buffer := b\<rparr>))"
    by (simp add: match_count_inv_def)
next
  fix now k ic s s' l p
  assume "match_count_inv s" "on_release_scan now k ic s = (None, s', l, p)"
  from match_count_inv_release_scan [OF this]
  show "match_count_inv (set_timeout l s')"
    by (simp add: match_count_inv_def)
qed (simp_all add: match_count_inv_def)

text \<open>
  C4. In every state reachable from a freshly constructed \<open>Combos\<close> instance by any
  interleaving of \<open>process_key\<close> calls and timer callbacks (returning or raising),
  \<open>match_count\<close> equals the number of registered combos whose state is MATCHING.
\<close>

theorem match_count_counts_MATCHING:
  assumes "reachable s"
  shows "Combos_match_count s = matching_count (combos s)"
proof -
  from assms have "match_count_inv s"
  proof (induction rule: reachable.induct)
    case (start cs)
    have "matching_count cs = 0" using start
      by (induction cs) (auto simp: matching_count_def constructed_def)
    then show ?case
      by (simp add: match_count_inv_def Combos_init_def)
  next
    case (bootup s)
    from bootup.IH show ?case unfolding during_bootup_def by (rule match_count_inv_reset_combos)
  next
    case (key s n now k is_pressed ic r)
    have "establishes match_count_inv match_count_inv (process_key n now k is_pressed ic)"
      using match_count_kept [of n] by (simp add: all_establish_def)
    from establishesD [OF this key.IH key.hyps(2)] show ?case .
  next
    case (callback s n now r)
    have fb: "establishes match_count_inv match_count_inv (flush_buffers n now)"
      using match_count_kept [of n] by (simp add: all_establish_def)
    have "match_count_inv (s\<lparr>start_timepoint := Some None\<rparr>)"
      using callback.IH by (simp add: match_count_inv_def)
    from establishesD [OF fb this] callback.hyps(2) show ?case by (simp add: on_timeout_def)
  next
    case (expiry s h)
    then show ?case by (simp add: match_count_inv_def)
  qed
  then show ?thesis by (simp add: match_count_inv_def)
qed

text \<open>
  C4 at a concrete reachable state: the scenario engine after presses of A and B, where
  both combos are MATCHING.
\<close>

theorem match_count_counts_MATCHING_witness:
  "reachable (state_after [KeyEvent 0 KC_A True (Some 0), KeyEvent 10 KC_B True (Some 1)]
                (booted scenario_registry)) \<and>
   Combos_match_count (state_after [KeyEvent 0 KC_A True (Some 0), KeyEvent 10 KC_B True (Some 1)]
                (booted scenario_registry)) = 2 \<and>
   Combos_match_count (state_after [KeyEvent 0 KC_A True (Some 0), KeyEvent 10 KC_B True (Some 1)]
                (booted scenario_registry))
     = matching_count (combos (state_after [KeyEvent 0 KC_A True (Some 0), KeyEvent 10 KC_B True (Some 1)]
                (booted scenario_registry)))"
proof -
  have r: "reachable (state_after [KeyEvent 0 KC_A True (Some 0), KeyEvent 10 KC_B True (Some 1)]
                (booted scenario_registry))"
    using reachable_booted_scenario by (rule reachable_state_after)
  have v: "Combos_match_count (state_after [KeyEvent 0 KC_A True (Some 0), KeyEvent 10 KC_B True (Some 1)]
                (booted scenario_registry)) = 2"
    by code_simp
  from match_count_counts_MATCHING [OF r] r v show ?thesis by simp
qed

end
